theory Spec2Isabelle
  imports Main "HOL-Library.Multiset"
begin

chapter \<open>The model\<close>

section \<open>Geometry and containers\<close>

text \<open>
  The geometry library (Boost.Geometry) is external to the repository. Its operations are
  taken as parameters of the model:
  \<^item> \<open>area\<close> for \<^verbatim>\<open>bg::area\<close> on a multi-polygon, with values in a linear order
    (the code uses doubles; a NaN area is outside this model);
  \<^item> \<open>un\<close> for \<^verbatim>\<open>bg::union_\<close> on two multi-polygons;
  \<^item> \<open>union_pp\<close> for \<^verbatim>\<open>bg::union_\<close> on two polygons, giving a vector of polygons;
  \<^item> \<open>intersects\<close>, \<open>within\<close>, \<open>envelope\<close> and the R-tree query, collected in the record
    \<open>geom\<close> below.
  A polygon is a value of an arbitrary type \<open>'p\<close>; a \<^verbatim>\<open>MultiPolygon\<close> is a vector of
  polygons, \<open>'p list\<close>.
\<close>

definition CompareArea :: "('p list \<Rightarrow> 'a::linorder) \<Rightarrow> 'p list \<Rightarrow> 'p list \<Rightarrow> bool" where
  "CompareArea area a b = (area a > area b)"

text \<open>
  \<^verbatim>\<open>std::priority_queue<T, std::vector<T>, Compare>\<close> is library code. It is modelled by
  its contract: the content is a list (in insertion order); \<open>top\<close> is an element \<open>x\<close> such
  that \<open>cmp x y\<close> holds for no element \<open>y\<close>; which of several such elements is returned is
  implementation defined, and is chosen here by the parameter \<open>tie\<close>. \<open>top\<close> and \<open>pop\<close> on
  an empty queue are undefined behaviour in C++ and are \<open>None\<close> here.
\<close>

definition pq_tops :: "('m \<Rightarrow> 'm \<Rightarrow> bool) \<Rightarrow> 'm list \<Rightarrow> nat list" where
  "pq_tops cmp q = filter (\<lambda>i. list_all (\<lambda>y. \<not> cmp (q ! i) y) q) [0..<length q]"

definition pq_top_index :: "('m list \<Rightarrow> nat) \<Rightarrow> ('m \<Rightarrow> 'm \<Rightarrow> bool) \<Rightarrow> 'm list \<Rightarrow> nat option" where
  "pq_top_index tie cmp q =
     (let c = pq_tops cmp q in if c = [] then None else Some (c ! (tie q mod length c)))"

definition pq_top :: "('m list \<Rightarrow> nat) \<Rightarrow> ('m \<Rightarrow> 'm \<Rightarrow> bool) \<Rightarrow> 'm list \<Rightarrow> 'm option" where
  "pq_top tie cmp q = map_option (\<lambda>k. q ! k) (pq_top_index tie cmp q)"

definition pq_pop :: "('m list \<Rightarrow> nat) \<Rightarrow> ('m \<Rightarrow> 'm \<Rightarrow> bool) \<Rightarrow> 'm list \<Rightarrow> 'm list option" where
  "pq_pop tie cmp q = map_option (\<lambda>k. take k q @ drop (Suc k) q) (pq_top_index tie cmp q)"

definition pq_push :: "'m \<Rightarrow> 'm list \<Rightarrow> 'm list" where
  "pq_push x q = q @ [x]"

section \<open>Cascade union\<close>

definition multi_polygon_union ::
  "('p list \<Rightarrow> 'p list \<Rightarrow> 'p list) \<Rightarrow> 'p list \<Rightarrow> 'p list \<Rightarrow> 'p list" where
  "multi_polygon_union un mpoly1 mpoly2 = un mpoly1 mpoly2"

text \<open>
  The state of the \<^verbatim>\<open>while\<close> loop of \<^verbatim>\<open>cascade_union\<close> is the queue together with a
  log of the calls of \<^verbatim>\<open>multi_polygon_union\<close> made so far (the pair of arguments of each
  call, in order). The log is not in the source; it records how often and on what the
  union is called.
\<close>

type_synonym 'p cascade_state = "'p list list \<times> ('p list \<times> 'p list) list"

definition cascade_body ::
  "('p list list \<Rightarrow> nat) \<Rightarrow> ('p list \<Rightarrow> 'a::linorder) \<Rightarrow> ('p list \<Rightarrow> 'p list \<Rightarrow> 'p list) \<Rightarrow>
   'p cascade_state \<Rightarrow> 'p cascade_state option" where
  "cascade_body tie area un st =
     (case st of (q, calls) \<Rightarrow>
      case pq_top tie (CompareArea area) q of None \<Rightarrow> None | Some mpoly1 \<Rightarrow>
      case pq_pop tie (CompareArea area) q of None \<Rightarrow> None | Some q1 \<Rightarrow>
      case pq_top tie (CompareArea area) q1 of None \<Rightarrow> None | Some mpoly2 \<Rightarrow>
      case pq_pop tie (CompareArea area) q1 of None \<Rightarrow> None | Some q2 \<Rightarrow>
        Some (pq_push (multi_polygon_union un mpoly1 mpoly2) q2, calls @ [(mpoly1, mpoly2)]))"

text \<open>
  Each \<open>pop\<close> shortens the queue by one element, so the loop of \<^verbatim>\<open>cascade_union\<close>
  terminates: its measure is the size of the queue.
\<close>

lemma pq_top_index_less: "pq_top_index tie cmp q = Some k \<Longrightarrow> k < length q"
proof -
  assume a: "pq_top_index tie cmp q = Some k"
  let ?c = "pq_tops cmp q"
  from a have ne: "?c \<noteq> []" and k: "k = ?c ! (tie q mod length ?c)"
    by (auto simp: pq_top_index_def Let_def split: if_splits)
  from ne have "tie q mod length ?c < length ?c" by simp
  then have "k \<in> set ?c" unfolding k by (rule nth_mem)
  then show ?thesis by (simp add: pq_tops_def)
qed

lemma pq_pop_length: "pq_pop tie cmp q = Some q' \<Longrightarrow> Suc (length q') = length q"
  by (auto simp: pq_pop_def dest!: pq_top_index_less)

lemma cascade_body_length:
  "cascade_body tie area un (q, calls) = Some (q', calls') \<Longrightarrow> Suc (length q') = length q"
  by (auto simp: cascade_body_def pq_push_def split: option.splits dest!: pq_pop_length)

function cascade_loop ::
  "('p list list \<Rightarrow> nat) \<Rightarrow> ('p list \<Rightarrow> 'a::linorder) \<Rightarrow> ('p list \<Rightarrow> 'p list \<Rightarrow> 'p list) \<Rightarrow>
   'p cascade_state \<Rightarrow> 'p cascade_state option" where
  "cascade_loop tie area un st =
     (if length (fst st) > 1
      then (case cascade_body tie area un st of None \<Rightarrow> None
            | Some st' \<Rightarrow> cascade_loop tie area un st')
      else Some st)"
  by pat_completeness auto
termination
  apply (relation "measure (\<lambda>(tie, area, un, st). length (fst st))")
   apply simp
  apply (auto dest!: cascade_body_length)
  done

declare cascade_loop.simps [simp del]

text \<open>
  \<^verbatim>\<open>cascade_union\<close>, with the log of union calls. The result is \<open>None\<close> where the C++
  would call \<^verbatim>\<open>top\<close> or \<^verbatim>\<open>pop\<close> on an empty queue.
\<close>

definition cascade_union_run ::
  "('p list list \<Rightarrow> nat) \<Rightarrow> ('p list \<Rightarrow> 'a::linorder) \<Rightarrow> ('p list \<Rightarrow> 'p list \<Rightarrow> 'p list) \<Rightarrow>
   'p list \<Rightarrow> ('p list \<times> ('p list \<times> 'p list) list) option" where
  "cascade_union_run tie area un polygons =
     (if polygons = [] then Some ([], [])
      else case cascade_loop tie area un (fold (\<lambda>item q. pq_push [item] q) polygons [], []) of
             None \<Rightarrow> None
           | Some (q, calls) \<Rightarrow>
               (case pq_top tie (CompareArea area) q of None \<Rightarrow> None
                | Some final_result \<Rightarrow> Some (final_result, calls)))"

definition cascade_union ::
  "('p list list \<Rightarrow> nat) \<Rightarrow> ('p list \<Rightarrow> 'a::linorder) \<Rightarrow> ('p list \<Rightarrow> 'p list \<Rightarrow> 'p list) \<Rightarrow>
   'p list \<Rightarrow> 'p list option" where
  "cascade_union tie area un polygons = map_option fst (cascade_union_run tie area un polygons)"

text \<open>
  The cascade in the words of the specification, as a relation on the multiset of queue
  elements: with one element left, that element is the result; with more than one, two
  elements of smallest area are taken out (the second smallest among the rest) and their
  union is put back.
\<close>

inductive smallest_first_cascade ::
  "('p list \<Rightarrow> 'a::linorder) \<Rightarrow> ('p list \<Rightarrow> 'p list \<Rightarrow> 'p list) \<Rightarrow>
   'p list multiset \<Rightarrow> 'p list \<Rightarrow> bool"
  for area un where
  one_left: "smallest_first_cascade area un {#m#} m"
| merge_two:
    "size M > 1 \<Longrightarrow>
     a \<in># M \<Longrightarrow> \<forall>x \<in># M. area a \<le> area x \<Longrightarrow>
     b \<in># M - {#a#} \<Longrightarrow> \<forall>x \<in># M - {#a#}. area b \<le> area x \<Longrightarrow>
     smallest_first_cascade area un (M - {#a#} - {#b#} + {#un a b#}) r \<Longrightarrow>
     smallest_first_cascade area un M r"

section \<open>Parallel chunk executor\<close>

text \<open>
  \<^verbatim>\<open>parallel_for(worker, size, num_threads, min_size = 1)\<close>. The launch loop computes
  the sub-range \<open>(start, stop)\<close> given to each thread. All quantities are at most
  \<open>size\<close>, so the \<^verbatim>\<open>size_t\<close> arithmetic does not wrap and is modelled on \<open>nat\<close>.
\<close>

function launch_threads :: "nat \<Rightarrow> nat \<Rightarrow> nat \<Rightarrow> nat \<Rightarrow> nat \<Rightarrow> (nat \<times> nat) list" where
  "launch_threads num_threads shift remainder ix start =
     (if ix < num_threads
      then (let stop = start + shift + (if ix < remainder then 1 else 0)
            in (start, stop) # launch_threads num_threads shift remainder (Suc ix) stop)
      else [])"
  by pat_completeness auto
termination
  by (relation "measure (\<lambda>(num_threads, shift, remainder, ix, start). num_threads - ix)") auto

declare launch_threads.simps [simp del]

text \<open>
  What \<^verbatim>\<open>parallel_for\<close> does with its worker: one direct call \<^verbatim>\<open>worker(0, size)\<close>, or
  one thread per sub-range. \<^verbatim>\<open>std::thread::hardware_concurrency()\<close> is the parameter
  \<open>hardware_concurrency\<close>; the standard allows it to be 0, and then \<^verbatim>\<open>size / num_threads\<close>
  divides by zero.
\<close>

datatype plan = Direct nat nat | Spawn "(nat \<times> nat) list" | DivisionByZero

definition parallel_for_plan :: "nat \<Rightarrow> nat \<Rightarrow> nat \<Rightarrow> nat \<Rightarrow> plan" where
  "parallel_for_plan hardware_concurrency sz num_threads0 min_size =
     (let num_threads = (if num_threads0 = 0 then hardware_concurrency else num_threads0) in
      if num_threads = 1 \<or> sz \<le> min_size then Direct 0 sz
      else if num_threads = 0 then DivisionByZero
      else let shift = sz div num_threads; remainder = sz mod num_threads
           in Spawn (launch_threads num_threads shift remainder 0 0))"

text \<open>
  Threads are modelled by interleaving. A worker is a process over a local state \<open>'l\<close>
  and the shared state \<open>'s\<close>: one call of \<open>worker l s\<close> is one atomic action, after which
  the worker continues, is done, raises an exception, or has undefined behaviour. A
  schedule is the list of thread indices in the order in which the threads take their
  actions. Memory is sequentially consistent in this model; the unsynchronised writes of
  \<^verbatim>\<open>exception\<close> by two failing threads are atomic here.
\<close>

datatype ('l, 'e) wres = Continue 'l | Done | Raise 'e | Undefined

datatype ('l, 'e) thread = Running 'l | Completed | Caught 'e | Faulted

record ('l, 's, 'e) pf_state =
  threads :: "('l, 'e) thread list"
  exception_ptr :: "'e option"
  shared :: 's

datatype ('s, 'e) outcome = Returned 's | Thrown 'e 's | Crash

definition thread_step ::
  "('l \<Rightarrow> 's \<Rightarrow> ('l, 'e) wres \<times> 's) \<Rightarrow> nat \<Rightarrow> ('l, 's, 'e) pf_state \<Rightarrow> ('l, 's, 'e) pf_state" where
  "thread_step worker i cfg =
     (if i < length (threads cfg) then
        (case threads cfg ! i of
           Running l \<Rightarrow>
             (case worker l (shared cfg) of
                (Continue l', s') \<Rightarrow> cfg\<lparr>threads := (threads cfg)[i := Running l'], shared := s'\<rparr>
              | (Done, s') \<Rightarrow> cfg\<lparr>threads := (threads cfg)[i := Completed], shared := s'\<rparr>
              | (Raise e, s') \<Rightarrow>
                  cfg\<lparr>threads := (threads cfg)[i := Caught e], exception_ptr := Some e, shared := s'\<rparr>
              | (Undefined, s') \<Rightarrow> cfg\<lparr>threads := (threads cfg)[i := Faulted], shared := s'\<rparr>)
         | _ \<Rightarrow> cfg)
      else cfg)"

fun is_running :: "('l, 'e) thread \<Rightarrow> bool" where
  "is_running (Running l) = True"
| "is_running _ = False"

text \<open>
  The direct call \<^verbatim>\<open>worker(0, size)\<close> runs the worker's actions one after the other on
  the caller's thread; an exception leaves \<^verbatim>\<open>parallel_for\<close> at once. The fuel bounds the
  number of actions: \<open>None\<close> means that the worker has not ended within it.
\<close>

fun call_worker ::
  "('l \<Rightarrow> 's \<Rightarrow> ('l, 'e) wres \<times> 's) \<Rightarrow> nat \<Rightarrow> 'l \<Rightarrow> 's \<Rightarrow> ('s, 'e) outcome option" where
  "call_worker worker 0 l s = None"
| "call_worker worker (Suc fuel) l s =
     (case worker l s of
        (Continue l', s') \<Rightarrow> call_worker worker fuel l' s'
      | (Done, s') \<Rightarrow> Some (Returned s')
      | (Raise e, s') \<Rightarrow> Some (Thrown e s')
      | (Undefined, s') \<Rightarrow> Some Crash)"

text \<open>
  The threaded path: the threads take their actions in the order of the schedule; the
  joins succeed once no thread is running (\<open>None\<close>: the schedule ends before that), and
  the stored exception, if any, is rethrown. The length of the schedule is the fuel of
  the direct call.
\<close>

definition run_threads ::
  "('l \<Rightarrow> 's \<Rightarrow> ('l, 'e) wres \<times> 's) \<Rightarrow> (nat \<Rightarrow> nat \<Rightarrow> 'l) \<Rightarrow> nat list \<Rightarrow> (nat \<times> nat) list \<Rightarrow> 's \<Rightarrow>
   ('l, 's, 'e) pf_state" where
  "run_threads worker init sched ranges s =
     fold (thread_step worker) sched
       \<lparr>threads = map (\<lambda>(start, stop). Running (init start stop)) ranges,
        exception_ptr = None, shared = s\<rparr>"

definition join_threads :: "('l, 's, 'e) pf_state \<Rightarrow> ('s, 'e) outcome option" where
  "join_threads cfg =
     (if list_ex is_running (threads cfg) then None
      else if list_ex (\<lambda>t. t = Faulted) (threads cfg) then Some Crash
      else case exception_ptr cfg of
             None \<Rightarrow> Some (Returned (shared cfg))
           | Some e \<Rightarrow> Some (Thrown e (shared cfg)))"

definition parallel_for ::
  "nat \<Rightarrow> nat list \<Rightarrow> ('l \<Rightarrow> 's \<Rightarrow> ('l, 'e) wres \<times> 's) \<Rightarrow> (nat \<Rightarrow> nat \<Rightarrow> 'l) \<Rightarrow>
   nat \<Rightarrow> nat \<Rightarrow> nat \<Rightarrow> 's \<Rightarrow> ('s, 'e) outcome option" where
  "parallel_for hw sched worker init sz num_threads min_size s =
     (case parallel_for_plan hw sz num_threads min_size of
        Direct start stop \<Rightarrow> call_worker worker (length sched) (init start stop) s
      | DivisionByZero \<Rightarrow> Some Crash
      | Spawn ranges \<Rightarrow> join_threads (run_threads worker init sched ranges s))"

section \<open>Overlap selector\<close>

text \<open>
  The overlay shapefile \<^verbatim>\<open>area_shp\<close> with the geometry operations used on it. An overlay
  polygon is identified by its address (\<^verbatim>\<open>const Polygon *\<close>), a natural number here;
  \<open>deref\<close> reads the polygon at an address. \<open>rtree_query\<close> is
  \<^verbatim>\<open>area_shp.rtree()->query(bg::index::intersects(envelope), ...)\<close>, giving the addresses
  (\<^verbatim>\<open>item.second\<close>) of the entries found, in the order of the output vector; the index is
  taken to be built. The overlay polygons are not modified during the selection.
\<close>

record ('p, 'b) geom =
  envelope :: "'p \<Rightarrow> 'b"
  rtree_query :: "'b \<Rightarrow> nat list"
  deref :: "nat \<Rightarrow> 'p"
  intersects :: "'p \<Rightarrow> 'p \<Rightarrow> bool"
  within :: "'p \<Rightarrow> 'p \<Rightarrow> bool"

text \<open>
  \<^verbatim>\<open>MutexProtectedSet<const Polygon *>\<close>: \<^verbatim>\<open>contains\<close>, and \<^verbatim>\<open>insert\<close> with the boolean
  of the pair it returns. \<^verbatim>\<open>insert\<close> holds the mutex and is atomic; \<^verbatim>\<open>contains\<close> takes no
  lock in the source, and is an atomic read in this model.
\<close>

definition mps_contains :: "nat \<Rightarrow> nat set \<Rightarrow> bool" where
  "mps_contains v s = (v \<in> s)"

definition mps_insert :: "nat \<Rightarrow> nat set \<Rightarrow> nat set \<times> bool" where
  "mps_insert v s = (insert v s, v \<notin> s)"

text \<open>
  The inner \<^verbatim>\<open>select_overlap(water, area_shp, i0, i1, filtered_polygons)\<close>, run on its
  own: \<open>select_candidates\<close> is the loop over the candidates of one water polygon, on the
  set of claimed addresses and the list \<^verbatim>\<open>matching_areas\<close>; \<open>select_overlap_range\<close> is the
  loop over the water polygons. The match lists hold the addresses of the polygons that
  the source copies into \<^verbatim>\<open>matching_areas\<close> (the copy is \<open>deref\<close> of the address), so that
  the identity of a claimed polygon stays visible. An index outside \<^verbatim>\<open>water\<close> is
  undefined behaviour (\<open>None\<close>). The output on \<^verbatim>\<open>std::cout\<close> is not modelled.
  The function is the loop of the source, entered with \<open>i0 \<le> i1\<close> as \<^verbatim>\<open>parallel_for\<close>
  calls it. For \<open>i0 > i1\<close> the source differs: \<^verbatim>\<open>result.reserve(i1 - i0)\<close> wraps in
  \<^verbatim>\<open>size_t\<close> and throws \<^verbatim>\<open>std::length_error\<close> before the loop, where the loop alone,
  and this function, return at once; that call is outside this model.
\<close>

fun select_candidates ::
  "('p, 'b) geom \<Rightarrow> 'p \<Rightarrow> nat list \<Rightarrow> nat set \<times> nat list \<Rightarrow> nat set \<times> nat list" where
  "select_candidates g water_polygon [] st = st"
| "select_candidates g water_polygon (item # area_polygons) (filtered_polygons, matching_areas) =
     (if mps_contains item filtered_polygons
      then select_candidates g water_polygon area_polygons (filtered_polygons, matching_areas)
      else if \<not> intersects g water_polygon (deref g item) \<or> within g (deref g item) water_polygon
      then select_candidates g water_polygon area_polygons (filtered_polygons, matching_areas)
      else (case mps_insert item filtered_polygons of
              (filtered_polygons', inserted) \<Rightarrow>
                select_candidates g water_polygon area_polygons
                  (filtered_polygons',
                   if inserted then matching_areas @ [item] else matching_areas)))"

function select_overlap_range ::
  "('p, 'b) geom \<Rightarrow> 'p list \<Rightarrow> nat \<Rightarrow> nat \<Rightarrow> nat set \<times> (nat \<times> nat list) list \<Rightarrow>
   (nat set \<times> (nat \<times> nat list) list) option" where
  "select_overlap_range g water ix i1 st =
     (if ix < i1 then
        (if ix < length water then
           (let water_polygon = water ! ix;
                area_polygons = rtree_query g (envelope g water_polygon)
            in if area_polygons = [] then select_overlap_range g water (Suc ix) i1 st
               else (case select_candidates g water_polygon area_polygons (fst st, []) of
                       (filtered_polygons, matching_areas) \<Rightarrow>
                         select_overlap_range g water (Suc ix) i1
                           (filtered_polygons,
                            if matching_areas \<noteq> [] then snd st @ [(ix, matching_areas)] else snd st)))
         else None)
      else Some st)"
  by pat_completeness auto
termination
  by (relation "measure (\<lambda>(g, water, ix, i1, st). i1 - ix)") auto

declare select_overlap_range.simps [simp del]

text \<open>
  The same function as a worker of \<^verbatim>\<open>parallel_for\<close>, cut into atomic actions, since
  the workers of the outer \<^verbatim>\<open>select_overlap\<close> share the set \<^verbatim>\<open>filtered_polygons\<close> and the
  vector \<^verbatim>\<open>result\<close>. The local state of a worker holds its loop variables and a program
  point: at the head of the outer loop (\<open>AtOuter\<close>), before the \<^verbatim>\<open>contains\<close> test of the
  next candidate (\<open>AtContains\<close>), before the geometric tests and the \<^verbatim>\<open>insert\<close> of the
  current candidate (\<open>AtInsert\<close>), and before the append to \<^verbatim>\<open>result\<close> under the mutex
  (\<open>AtPublish\<close>). Between the \<^verbatim>\<open>contains\<close> and the \<^verbatim>\<open>insert\<close> of one candidate other
  workers may act.
\<close>

record sel_shared =
  sh_filtered_polygons :: "nat set"
  sh_result :: "(nat \<times> nat list) list"

datatype sel_pc = AtOuter | AtContains | AtInsert | AtPublish

record sel_local =
  l_pc :: sel_pc
  l_ix :: nat
  l_i1 :: nat
  l_area_polygons :: "nat list"
  l_item :: nat
  l_matching_areas :: "nat list"
  l_result :: "(nat \<times> nat list) list"

definition select_init :: "nat \<Rightarrow> nat \<Rightarrow> sel_local" where
  "select_init i0 i1 =
     \<lparr>l_pc = AtOuter, l_ix = i0, l_i1 = i1, l_area_polygons = [], l_item = 0,
      l_matching_areas = [], l_result = []\<rparr>"

definition select_worker ::
  "('p, 'b) geom \<Rightarrow> 'p list \<Rightarrow> sel_local \<Rightarrow> sel_shared \<Rightarrow> (sel_local, 'e) wres \<times> sel_shared" where
  "select_worker g water l sh =
     (case l_pc l of
        AtOuter \<Rightarrow>
          (if l_ix l < l_i1 l then
             (if l_ix l < length water then
                (let area_polygons = rtree_query g (envelope g (water ! l_ix l))
                 in if area_polygons = [] then (Continue (l\<lparr>l_ix := Suc (l_ix l)\<rparr>), sh)
                    else (Continue (l\<lparr>l_pc := AtContains, l_area_polygons := area_polygons,
                                       l_matching_areas := []\<rparr>), sh))
              else (Undefined, sh))
           else (Continue (l\<lparr>l_pc := AtPublish\<rparr>), sh))
      | AtContains \<Rightarrow>
          (case l_area_polygons l of
             [] \<Rightarrow>
               (Continue (l\<lparr>l_pc := AtOuter, l_ix := Suc (l_ix l), l_matching_areas := [],
                            l_result := (if l_matching_areas l \<noteq> []
                                         then l_result l @ [(l_ix l, l_matching_areas l)]
                                         else l_result l)\<rparr>), sh)
           | item # rest \<Rightarrow>
               (if mps_contains item (sh_filtered_polygons sh)
                then (Continue (l\<lparr>l_area_polygons := rest\<rparr>), sh)
                else (Continue (l\<lparr>l_pc := AtInsert, l_item := item, l_area_polygons := rest\<rparr>), sh)))
      | AtInsert \<Rightarrow>
          (if \<not> intersects g (water ! l_ix l) (deref g (l_item l)) \<or>
              within g (deref g (l_item l)) (water ! l_ix l)
           then (Continue (l\<lparr>l_pc := AtContains\<rparr>), sh)
           else (case mps_insert (l_item l) (sh_filtered_polygons sh) of
                   (filtered_polygons', inserted) \<Rightarrow>
                     (Continue (l\<lparr>l_pc := AtContains,
                                   l_matching_areas := (if inserted then l_matching_areas l @ [l_item l]
                                                        else l_matching_areas l)\<rparr>),
                      sh\<lparr>sh_filtered_polygons := filtered_polygons'\<rparr>)))
      | AtPublish \<Rightarrow> (Done, sh\<lparr>sh_result := sh_result sh @ l_result l\<rparr>))"

text \<open>
  The outer \<^verbatim>\<open>select_overlap(water, area_shp)\<close>. The source passes the literal 128 as
  the third argument of \<^verbatim>\<open>parallel_for\<close>, which is its thread count;
  \<open>select_overlap_threads\<close> takes that number as a parameter, \<open>select_overlap_ids\<close> is the
  source's instance, and \<open>select_overlap\<close> gives the records with the copied polygons,
  as the source returns them.
\<close>

definition select_overlap_threads ::
  "nat \<Rightarrow> nat \<Rightarrow> nat list \<Rightarrow> ('p, 'b) geom \<Rightarrow> 'p list \<Rightarrow> ((nat \<times> nat list) list, 'e) outcome option" where
  "select_overlap_threads num_threads hw sched g water =
     (case parallel_for hw sched (select_worker g water) select_init (length water) num_threads 1
             \<lparr>sh_filtered_polygons = {}, sh_result = []\<rparr> of
        None \<Rightarrow> None
      | Some (Returned sh) \<Rightarrow> Some (Returned (sh_result sh))
      | Some (Thrown e sh) \<Rightarrow> Some (Thrown e (sh_result sh))
      | Some Crash \<Rightarrow> Some Crash)"

definition select_overlap_ids ::
  "nat \<Rightarrow> nat list \<Rightarrow> ('p, 'b) geom \<Rightarrow> 'p list \<Rightarrow> ((nat \<times> nat list) list, 'e) outcome option" where
  "select_overlap_ids = select_overlap_threads 128"

definition select_overlap ::
  "nat \<Rightarrow> nat list \<Rightarrow> ('p, 'b) geom \<Rightarrow> 'p list \<Rightarrow> ((nat \<times> 'p list) list, 'e) outcome option" where
  "select_overlap hw sched g water =
     (case select_overlap_ids hw sched g water of
        None \<Rightarrow> None
      | Some (Returned r) \<Rightarrow> Some (Returned (map (\<lambda>(ix, matching). (ix, map (deref g) matching)) r))
      | Some (Thrown e r) \<Rightarrow> Some (Thrown e (map (\<lambda>(ix, matching). (ix, map (deref g) matching)) r))
      | Some Crash \<Rightarrow> Some Crash)"

section \<open>Merge applier\<close>

text \<open>
  The inner \<^verbatim>\<open>merge_overlapping(overlap, i0, i1)\<close>: the cascade union of each record of
  the range, records with an empty result left out. \<open>None\<close> stands for undefined
  behaviour (an index outside \<^verbatim>\<open>overlap\<close>, or a failed \<^verbatim>\<open>cascade_union\<close>).
\<close>

function merge_overlapping_range ::
  "('p list list \<Rightarrow> nat) \<Rightarrow> ('p list \<Rightarrow> 'a::linorder) \<Rightarrow> ('p list \<Rightarrow> 'p list \<Rightarrow> 'p list) \<Rightarrow>
   (nat \<times> 'p list) list \<Rightarrow> nat \<Rightarrow> nat \<Rightarrow> (nat \<times> 'p list) list \<Rightarrow> (nat \<times> 'p list) list option" where
  "merge_overlapping_range tie area un overlap ix i1 result =
     (if ix < i1 then
        (if ix < length overlap then
           (let item = overlap ! ix in
            case cascade_union tie area un (snd item) of
              None \<Rightarrow> None
            | Some unioned \<Rightarrow>
                if unioned = [] then merge_overlapping_range tie area un overlap (Suc ix) i1 result
                else merge_overlapping_range tie area un overlap (Suc ix) i1
                       (result @ [(fst item, unioned)]))
         else None)
      else Some result)"
  by pat_completeness auto
termination
  by (relation "measure (\<lambda>(tie, area, un, overlap, ix, i1, result). i1 - ix)") auto

declare merge_overlapping_range.simps [simp del]

text \<open>
  The state shared by the workers of the outer \<^verbatim>\<open>merge_overlapping\<close>: the polygons of
  \<^verbatim>\<open>water_shp\<close> and the vector \<^verbatim>\<open>extra_polygons\<close>. \<open>merge_item\<close> is the body of the
  loop run under the mutex, \<open>merge_locked\<close> the loop. An index \<^verbatim>\<open>item.first\<close> outside
  the water polygons, and \<^verbatim>\<open>front()\<close> of an empty vector, are undefined behaviour.
\<close>

record 'p merge_shared =
  water_polygons :: "'p list"
  extra_polygons :: "'p list"

definition merge_item ::
  "('p \<Rightarrow> 'p \<Rightarrow> 'p list) \<Rightarrow> nat \<times> 'p list \<Rightarrow> 'p merge_shared \<Rightarrow> 'p merge_shared option" where
  "merge_item union_pp item sh =
     (if fst item < length (water_polygons sh) then
        (case snd item of
           [] \<Rightarrow> None
         | front # others \<Rightarrow>
             (let unioned = union_pp (water_polygons sh ! fst item) front;
                  sh1 = (case unioned of
                           [] \<Rightarrow> sh
                         | u # us \<Rightarrow> sh\<lparr>water_polygons := (water_polygons sh)[fst item := u],
                                        extra_polygons := extra_polygons sh @ us\<rparr>)
              in Some (sh1\<lparr>extra_polygons := extra_polygons sh1 @ others\<rparr>)))
      else None)"

fun merge_locked ::
  "('p \<Rightarrow> 'p \<Rightarrow> 'p list) \<Rightarrow> (nat \<times> 'p list) list \<Rightarrow> 'p merge_shared \<Rightarrow> 'p merge_shared option" where
  "merge_locked union_pp [] sh = Some sh"
| "merge_locked union_pp (item # unioned_polygons) sh =
     (case merge_item union_pp item sh of
        None \<Rightarrow> None
      | Some sh' \<Rightarrow> merge_locked union_pp unioned_polygons sh')"

text \<open>
  The worker takes two atomic actions: the computation of \<^verbatim>\<open>unioned_polygons\<close>, which
  reads only \<^verbatim>\<open>overlap\<close>, and the section under the mutex. The worker raises no
  exception in this model, since the geometry operations are total functions here.
\<close>

datatype 'p merge_local = MergeStart nat nat | MergeLocked "(nat \<times> 'p list) list"

definition merge_worker ::
  "('p list list \<Rightarrow> nat) \<Rightarrow> ('p list \<Rightarrow> 'a::linorder) \<Rightarrow> ('p list \<Rightarrow> 'p list \<Rightarrow> 'p list) \<Rightarrow>
   ('p \<Rightarrow> 'p \<Rightarrow> 'p list) \<Rightarrow> (nat \<times> 'p list) list \<Rightarrow>
   'p merge_local \<Rightarrow> 'p merge_shared \<Rightarrow> ('p merge_local, 'e) wres \<times> 'p merge_shared" where
  "merge_worker tie area un union_pp overlap l sh =
     (case l of
        MergeStart i0 i1 \<Rightarrow>
          (case merge_overlapping_range tie area un overlap i0 i1 [] of
             None \<Rightarrow> (Undefined, sh)
           | Some unioned_polygons \<Rightarrow> (Continue (MergeLocked unioned_polygons), sh))
      | MergeLocked unioned_polygons \<Rightarrow>
          (case merge_locked union_pp unioned_polygons sh of
             None \<Rightarrow> (Undefined, sh)
           | Some sh' \<Rightarrow> (Done, sh')))"

text \<open>
  The outer \<^verbatim>\<open>merge_overlapping(water_shp, overlap)\<close>: \<^verbatim>\<open>parallel_for\<close> with thread count
  0, then the extra polygons appended to the water polygons one by one.
\<close>

definition merge_overlapping ::
  "nat \<Rightarrow> nat list \<Rightarrow> ('p list list \<Rightarrow> nat) \<Rightarrow> ('p list \<Rightarrow> 'a::linorder) \<Rightarrow>
   ('p list \<Rightarrow> 'p list \<Rightarrow> 'p list) \<Rightarrow> ('p \<Rightarrow> 'p \<Rightarrow> 'p list) \<Rightarrow>
   'p list \<Rightarrow> (nat \<times> 'p list) list \<Rightarrow> ('p list, 'e) outcome option" where
  "merge_overlapping hw sched tie area un union_pp water overlap =
     (case parallel_for hw sched (merge_worker tie area un union_pp overlap) MergeStart
             (length overlap) 0 1 \<lparr>water_polygons = water, extra_polygons = []\<rparr> of
        None \<Rightarrow> None
      | Some (Returned sh) \<Rightarrow>
          Some (Returned (fold (\<lambda>polygon w. w @ [polygon]) (extra_polygons sh) (water_polygons sh)))
      | Some (Thrown e sh) \<Rightarrow> Some (Thrown e (water_polygons sh))
      | Some Crash \<Rightarrow> Some Crash)"

text \<open>
  The merge in the words of the specification, one record after the other: the reduced
  list is the cascade union of the record's polygons; its first element is united with
  the base polygon at the record's index, the first piece of that union replaces the
  slot, the other pieces and the rest of the reduced list are queued; the queue is
  appended to the base at the end. A record whose reduced list is empty, and a union
  with no piece, leave the slot as it is.
\<close>

definition merge_record ::
  "('p list list \<Rightarrow> nat) \<Rightarrow> ('p list \<Rightarrow> 'a::linorder) \<Rightarrow> ('p list \<Rightarrow> 'p list \<Rightarrow> 'p list) \<Rightarrow>
   ('p \<Rightarrow> 'p \<Rightarrow> 'p list) \<Rightarrow> nat \<times> 'p list \<Rightarrow> 'p list \<times> 'p list \<Rightarrow> 'p list \<times> 'p list" where
  "merge_record tie area un union_pp record st =
     (case st of (base, queue) \<Rightarrow>
      case cascade_union tie area un (snd record) of
        Some (first # rest) \<Rightarrow>
          (case union_pp (base ! fst record) first of
             piece # pieces \<Rightarrow> (base[fst record := piece], queue @ pieces @ rest)
           | [] \<Rightarrow> (base, queue @ rest))
      | _ \<Rightarrow> (base, queue))"

definition merge_sequential ::
  "('p list list \<Rightarrow> nat) \<Rightarrow> ('p list \<Rightarrow> 'a::linorder) \<Rightarrow> ('p list \<Rightarrow> 'p list \<Rightarrow> 'p list) \<Rightarrow>
   ('p \<Rightarrow> 'p \<Rightarrow> 'p list) \<Rightarrow> (nat \<times> 'p list) list \<Rightarrow> 'p list \<Rightarrow> 'p list" where
  "merge_sequential tie area un union_pp records base =
     (case fold (merge_record tie area un union_pp) records (base, []) of
        (base', queue) \<Rightarrow> base' @ queue)"

chapter \<open>Auxiliary notions of the proofs\<close>

text \<open>
  \<open>chunk_start\<close> is the closed form of the start of the \<open>i\<close>-th sub-range of
  \<^verbatim>\<open>parallel_for\<close>, \<open>chunk\<close> the part of a list in a sub-range; \<open>exception_inv\<close> relates
  the stored exception to the threads that raised; \<open>thread_after\<close> is the state of a
  thread after an action, and \<open>worker_steps\<close> runs a worker alone for a number of
  continuing actions.
\<close>

definition chunk_start :: "nat \<Rightarrow> nat \<Rightarrow> nat \<Rightarrow> nat" where
  "chunk_start shift remainder i = i * shift + min i remainder"

definition chunk :: "'x list \<Rightarrow> nat \<times> nat \<Rightarrow> 'x list" where
  "chunk xs r = take (snd r - fst r) (drop (fst r) xs)"


fun thread_after :: "('l, 'e) wres \<Rightarrow> ('l, 'e) thread" where
  "thread_after (Continue l) = Running l"
| "thread_after Done = Completed"
| "thread_after (Raise e) = Caught e"
| "thread_after Undefined = Faulted"

fun worker_steps ::
  "('l \<Rightarrow> 's \<Rightarrow> ('l, 'e) wres \<times> 's) \<Rightarrow> nat \<Rightarrow> 'l \<times> 's \<Rightarrow> ('l \<times> 's) option" where
  "worker_steps worker 0 ls = Some ls"
| "worker_steps worker (Suc k) ls =
     (case worker (fst ls) (snd ls) of
        (Continue l', s') \<Rightarrow> worker_steps worker k (l', s')
      | _ \<Rightarrow> None)"

text \<open>
  For the merge: \<open>reduce_records\<close> is what the inner \<^verbatim>\<open>merge_overlapping\<close> gives for a
  list of records, and \<open>merge_inv\<close> the invariant of the threads of the outer one: the
  shared state is the result of the locked loops of the completed threads, in the order
  in which they completed.
\<close>

definition reduce_records ::
  "('p list list \<Rightarrow> nat) \<Rightarrow> ('p list \<Rightarrow> 'a::linorder) \<Rightarrow> ('p list \<Rightarrow> 'p list \<Rightarrow> 'p list) \<Rightarrow>
   (nat \<times> 'p list) list \<Rightarrow> (nat \<times> 'p list) list" where
  "reduce_records tie area un records =
     concat (map (\<lambda>item. case cascade_union tie area un (snd item) of
                            Some (first # rest) \<Rightarrow> [(fst item, first # rest)]
                          | _ \<Rightarrow> []) records)"

definition merge_inv ::
  "('p list list \<Rightarrow> nat) \<Rightarrow> ('p list \<Rightarrow> 'a::linorder) \<Rightarrow> ('p list \<Rightarrow> 'p list \<Rightarrow> 'p list) \<Rightarrow>
   ('p \<Rightarrow> 'p \<Rightarrow> 'p list) \<Rightarrow> (nat \<times> 'p list) list \<Rightarrow> 'p list \<Rightarrow> (nat \<times> nat) list \<Rightarrow>
   ('p merge_local, 'p merge_shared, 'e) pf_state \<Rightarrow> bool" where
  "merge_inv tie area un union_pp overlap water ranges cfg =
     (length (threads cfg) = length ranges \<and> exception_ptr cfg = None \<and>
      (\<forall>t<length ranges.
          threads cfg ! t = Running (MergeStart (fst (ranges ! t)) (snd (ranges ! t))) \<or>
          threads cfg ! t = Running (MergeLocked (reduce_records tie area un (chunk overlap (ranges ! t)))) \<or>
          threads cfg ! t = Completed \<or> threads cfg ! t = Faulted) \<and>
      (\<exists>order. distinct order \<and>
          set order = {t. t < length ranges \<and> threads cfg ! t = Completed} \<and>
          merge_locked union_pp
            (reduce_records tie area un (concat (map (\<lambda>t. chunk overlap (ranges ! t)) order)))
            \<lparr>water_polygons = water, extra_polygons = []\<rparr> = Some (shared cfg)))"

text \<open>
  For the selection: the candidates of a water polygon, the candidates that qualify
  (true intersection, no containment), the order of first occurrence \<open>order_by\<close>, and
  the invariant \<open>sel_inv\<close> of the threads: every record and every match list holds
  qualifying candidates of its water polygon in the order of the query; the multiset of
  all claimed addresses is the set \<^verbatim>\<open>filtered_polygons\<close>; every index belongs to at most
  one record or unfinished range; and every index is either still pending in a running
  thread or has all its qualifying candidates claimed.
\<close>

definition candidates :: "('p, 'b) geom \<Rightarrow> 'p list \<Rightarrow> nat \<Rightarrow> nat list" where
  "candidates g water i = rtree_query g (envelope g (water ! i))"

definition qualifies :: "('p, 'b) geom \<Rightarrow> 'p list \<Rightarrow> nat \<Rightarrow> nat \<Rightarrow> bool" where
  "qualifies g water i a =
     (intersects g (water ! i) (deref g a) \<and> \<not> within g (deref g a) (water ! i))"

definition order_by :: "nat list \<Rightarrow> nat set \<Rightarrow> nat list" where
  "order_by xs S = fold (\<lambda>x m. if x \<in> S \<and> x \<notin> set m then m @ [x] else m) xs []"

definition record_ok :: "('p, 'b) geom \<Rightarrow> 'p list \<Rightarrow> nat \<times> nat list \<Rightarrow> bool" where
  "record_ok g water rec =
     (fst rec < length water \<and> snd rec \<noteq> [] \<and>
      (\<forall>a \<in> set (snd rec). a \<in> set (candidates g water (fst rec)) \<and> qualifies g water (fst rec) a) \<and>
      snd rec = order_by (candidates g water (fst rec)) (set (snd rec)))"

definition index_done :: "('p, 'b) geom \<Rightarrow> 'p list \<Rightarrow> nat set \<Rightarrow> nat \<Rightarrow> bool" where
  "index_done g water F i = (\<forall>a \<in> set (candidates g water i). qualifies g water i a \<longrightarrow> a \<in> F)"

definition local_ok :: "('p, 'b) geom \<Rightarrow> 'p list \<Rightarrow> nat set \<Rightarrow> sel_local \<Rightarrow> nat list \<Rightarrow> bool" where
  "local_ok g water F l pre =
     ((\<forall>x \<in> set pre. qualifies g water (l_ix l) x \<longrightarrow> x \<in> F) \<and>
      (\<forall>a \<in> set (l_matching_areas l). a \<in> set pre \<and> qualifies g water (l_ix l) a \<and> a \<in> F) \<and>
      l_matching_areas l = order_by pre (set (l_matching_areas l)))"

definition running_ok :: "('p, 'b) geom \<Rightarrow> 'p list \<Rightarrow> nat set \<Rightarrow> sel_local \<Rightarrow> bool" where
  "running_ok g water F l =
     (list_all (record_ok g water) (l_result l) \<and>
      (l_ix l < l_i1 l \<longrightarrow> l_i1 l \<le> length water) \<and>
      (case l_pc l of
         AtOuter \<Rightarrow> l_matching_areas l = []
       | AtPublish \<Rightarrow> l_matching_areas l = [] \<and> l_i1 l \<le> l_ix l
       | AtContains \<Rightarrow> l_ix l < l_i1 l \<and>
           (\<exists>pre. candidates g water (l_ix l) = pre @ l_area_polygons l \<and> local_ok g water F l pre)
       | AtInsert \<Rightarrow> l_ix l < l_i1 l \<and>
           (\<exists>pre. candidates g water (l_ix l) = pre @ l_item l # l_area_polygons l \<and>
                  local_ok g water F l pre)))"

fun thread_ok :: "('p, 'b) geom \<Rightarrow> 'p list \<Rightarrow> nat set \<Rightarrow> (sel_local, 'e) thread \<Rightarrow> bool" where
  "thread_ok g water F (Running l) = running_ok g water F l"
| "thread_ok g water F Completed = True"
| "thread_ok g water F (Caught e) = False"
| "thread_ok g water F Faulted = False"

fun claimed :: "(sel_local, 'e) thread \<Rightarrow> nat multiset" where
  "claimed (Running l) = mset (concat (map snd (l_result l))) + mset (l_matching_areas l)"
| "claimed _ = {#}"

fun indices :: "(sel_local, 'e) thread \<Rightarrow> nat multiset" where
  "indices (Running l) = mset (map fst (l_result l)) + mset [l_ix l..<l_i1 l]"
| "indices _ = {#}"

fun pending :: "(sel_local, 'e) thread \<Rightarrow> nat set" where
  "pending (Running l) = {l_ix l..<l_i1 l}"
| "pending _ = {}"

definition step_ok ::
  "('p, 'b) geom \<Rightarrow> 'p list \<Rightarrow> sel_local \<Rightarrow> sel_shared \<Rightarrow> (sel_local, 'e) wres \<Rightarrow> sel_shared \<Rightarrow> bool" where
  "step_ok g water l sh r sh' =
     (sh_filtered_polygons sh \<subseteq> sh_filtered_polygons sh' \<and>
      finite (sh_filtered_polygons sh') \<and>
      thread_ok g water (sh_filtered_polygons sh') (thread_after r) \<and>
      mset (concat (map snd (sh_result sh'))) + claimed (thread_after r) +
        mset_set (sh_filtered_polygons sh) =
      mset (concat (map snd (sh_result sh))) + claimed (Running l :: (sel_local, 'e) thread) +
        mset_set (sh_filtered_polygons sh') \<and>
      mset (map fst (sh_result sh')) + indices (thread_after r) \<subseteq>#
        mset (map fst (sh_result sh)) + indices (Running l :: (sel_local, 'e) thread) \<and>
      pending (Running l :: (sel_local, 'e) thread) \<subseteq>
        pending (thread_after r) \<union> {i. index_done g water (sh_filtered_polygons sh') i} \<and>
      (list_all (record_ok g water) (sh_result sh) \<longrightarrow> list_all (record_ok g water) (sh_result sh')))"

definition sel_inv ::
  "('p, 'b) geom \<Rightarrow> 'p list \<Rightarrow> (sel_local, sel_shared, 'e) pf_state \<Rightarrow> bool" where
  "sel_inv g water cfg =
     (finite (sh_filtered_polygons (shared cfg)) \<and> exception_ptr cfg = None \<and>
      list_all (record_ok g water) (sh_result (shared cfg)) \<and>
      (\<forall>th \<in> set (threads cfg). thread_ok g water (sh_filtered_polygons (shared cfg)) th) \<and>
      mset (concat (map snd (sh_result (shared cfg)))) + sum_list (map claimed (threads cfg)) =
        mset_set (sh_filtered_polygons (shared cfg)) \<and>
      mset (map fst (sh_result (shared cfg))) + sum_list (map indices (threads cfg)) \<subseteq>#
        mset [0..<length water] \<and>
      (\<forall>i<length water. index_done g water (sh_filtered_polygons (shared cfg)) i \<or>
                          (\<exists>th \<in> set (threads cfg). i \<in> pending th)))"

definition final_facts :: "('p, 'b) geom \<Rightarrow> 'p list \<Rightarrow> (nat \<times> nat list) list \<Rightarrow> bool" where
  "final_facts g water r =
     (distinct (concat (map snd r)) \<and> distinct (map fst r) \<and>
      list_all (record_ok g water) r \<and>
      (\<forall>i<length water. index_done g water (set (concat (map snd r))) i))"

definition unambiguous :: "('p, 'b) geom \<Rightarrow> 'p list \<Rightarrow> bool" where
  "unambiguous g water =
     (\<forall>i<length water. \<forall>j<length water. \<forall>a.
        a \<in> set (candidates g water i) \<and> qualifies g water i a \<and>
        a \<in> set (candidates g water j) \<and> qualifies g water j a \<longrightarrow> i = j)"

definition expected_records :: "('p, 'b) geom \<Rightarrow> 'p list \<Rightarrow> (nat \<times> nat list) set" where
  "expected_records g water =
     {(i, order_by (candidates g water i) {a. qualifies g water i a}) | i.
        i < length water \<and> order_by (candidates g water i) {a. qualifies g water i a} \<noteq> []}"

text \<open>
  For the progress of the threads: \<open>merge_valid\<close> says that no worker of the merge has
  met undefined behaviour and that the base collection has kept its length;
  \<open>select_measure\<close> bounds the number of actions that a worker of the selection has
  still to take, whatever the other workers do (two actions for each remaining candidate,
  two for each remaining water polygon), and \<open>select_turns\<close> is a number of turns that is
  enough for every worker of the selection.
\<close>

definition merge_valid ::
  "'p list \<Rightarrow> nat \<Rightarrow> ('p merge_local, 'p merge_shared, 'e) pf_state \<Rightarrow> bool" where
  "merge_valid water n cfg =
     (length (water_polygons (shared cfg)) = length water \<and>
      (\<forall>t<n. threads cfg ! t \<noteq> Faulted))"

definition candidate_work :: "('p, 'b) geom \<Rightarrow> 'p list \<Rightarrow> nat \<Rightarrow> nat \<Rightarrow> nat" where
  "candidate_work g water a b = sum_list (map (\<lambda>i. 2 * length (candidates g water i) + 2) [a..<b])"

definition select_measure :: "('p, 'b) geom \<Rightarrow> 'p list \<Rightarrow> sel_local \<Rightarrow> nat" where
  "select_measure g water l =
     (case l_pc l of
        AtPublish \<Rightarrow> 0
      | AtOuter \<Rightarrow> 1 + candidate_work g water (l_ix l) (l_i1 l)
      | AtContains \<Rightarrow> 2 + 2 * length (l_area_polygons l) + candidate_work g water (Suc (l_ix l)) (l_i1 l)
      | AtInsert \<Rightarrow> 3 + 2 * length (l_area_polygons l) + candidate_work g water (Suc (l_ix l)) (l_i1 l))"

definition select_turns :: "('p, 'b) geom \<Rightarrow> 'p list \<Rightarrow> nat" where
  "select_turns g water = 2 + candidate_work g water 0 (length water)"

chapter \<open>Properties\<close>

section \<open>Cascade union\<close>

lemma fold_push_singletons:
  "fold (\<lambda>item q. pq_push [item] q) polygons q0 = q0 @ map (\<lambda>p. [p]) polygons"
  by (induction polygons arbitrary: q0) (simp_all add: pq_push_def)

lemma pq_tops_nonempty:
  fixes area :: "'p list \<Rightarrow> 'a::linorder"
  assumes "q \<noteq> []"
  shows "pq_tops (CompareArea area) q \<noteq> []"
proof -
  from assms have fin: "finite (area ` set q)" and ne: "area ` set q \<noteq> {}" by auto
  define m where "m = Min (area ` set q)"
  have "m \<in> area ` set q" unfolding m_def using fin ne by (rule Min_in)
  then obtain x where x: "x \<in> set q" "area x = m" by auto
  then obtain i where i: "i < length q" "q ! i = x" by (auto simp: in_set_conv_nth)
  have "\<forall>y \<in> set q. \<not> CompareArea area (q ! i) y"
  proof
    fix y assume "y \<in> set q"
    then have "m \<le> area y" unfolding m_def using fin by (simp add: Min_le)
    then show "\<not> CompareArea area (q ! i) y" using i x by (simp add: CompareArea_def)
  qed
  with i have "i \<in> set (pq_tops (CompareArea area) q)" by (simp add: pq_tops_def list_all_iff)
  then show ?thesis by auto
qed

lemma pq_top_index_Some:
  fixes area :: "'p list \<Rightarrow> 'a::linorder"
  assumes "q \<noteq> []"
  shows "\<exists>k. pq_top_index tie (CompareArea area) q = Some k \<and> k < length q \<and>
             (\<forall>y \<in> set q. area (q ! k) \<le> area y)"
proof -
  let ?c = "pq_tops (CompareArea area) q"
  have ne: "?c \<noteq> []" using assms by (rule pq_tops_nonempty)
  then have "tie q mod length ?c < length ?c" by simp
  then have "?c ! (tie q mod length ?c) \<in> set ?c" by (rule nth_mem)
  then have "?c ! (tie q mod length ?c) < length q \<and>
             (\<forall>y \<in> set q. area (q ! (?c ! (tie q mod length ?c))) \<le> area y)"
    by (auto simp: pq_tops_def CompareArea_def not_less list_all_iff)
  with ne show ?thesis by (simp add: pq_top_index_def Let_def)
qed

lemma pq_top_pop_Some:
  fixes area :: "'p list \<Rightarrow> 'a::linorder"
  assumes "q \<noteq> []"
  shows "\<exists>m q'. pq_top tie (CompareArea area) q = Some m \<and>
                pq_pop tie (CompareArea area) q = Some q' \<and>
                m \<in># mset q \<and> (\<forall>y \<in># mset q. area m \<le> area y) \<and>
                mset q' = mset q - {#m#} \<and> Suc (length q') = length q"
proof -
  from pq_top_index_Some [OF assms, of tie area]
  obtain k where k: "pq_top_index tie (CompareArea area) q = Some k" "k < length q"
    "\<forall>y \<in> set q. area (q ! k) \<le> area y" by blast
  have "mset q = mset (take k q @ q ! k # drop (Suc k) q)"
    using k(2) by (simp only: id_take_nth_drop [symmetric])
  then have "mset (take k q @ drop (Suc k) q) = mset q - {#q ! k#}"
    by simp
  then show ?thesis using k by (simp add: pq_top_def pq_pop_def)
qed

lemma pq_top_single:
  fixes area :: "'p list \<Rightarrow> 'a::linorder"
  shows "pq_top tie (CompareArea area) [m] = Some m"
  using pq_top_pop_Some [of "[m]" tie area] by auto

lemma cascade_body_Some:
  fixes area :: "'p list \<Rightarrow> 'a::linorder"
  assumes "length q > 1"
  shows "\<exists>a b q'. cascade_body tie area un (q, calls) = Some (q', calls @ [(a, b)]) \<and>
           a \<in># mset q \<and> (\<forall>x \<in># mset q. area a \<le> area x) \<and>
           b \<in># mset q - {#a#} \<and> (\<forall>x \<in># mset q - {#a#}. area b \<le> area x) \<and>
           mset q' = mset q - {#a#} - {#b#} + {#un a b#} \<and> Suc (length q') = length q"
proof -
  from assms have "q \<noteq> []" by auto
  from pq_top_pop_Some [OF this, of tie area]
  obtain a q1 where 1: "pq_top tie (CompareArea area) q = Some a"
    "pq_pop tie (CompareArea area) q = Some q1" "a \<in># mset q"
    "\<forall>y \<in># mset q. area a \<le> area y" "mset q1 = mset q - {#a#}" "Suc (length q1) = length q"
    by blast
  from assms 1(6) have "q1 \<noteq> []" by auto
  from pq_top_pop_Some [OF this, of tie area]
  obtain b q2 where 2: "pq_top tie (CompareArea area) q1 = Some b"
    "pq_pop tie (CompareArea area) q1 = Some q2" "b \<in># mset q1"
    "\<forall>y \<in># mset q1. area b \<le> area y" "mset q2 = mset q1 - {#b#}" "Suc (length q2) = length q1"
    by blast
  have "cascade_body tie area un (q, calls) = Some (q2 @ [un a b], calls @ [(a, b)])"
    using 1(1,2) 2(1,2) by (simp add: cascade_body_def pq_push_def multi_polygon_union_def)
  moreover have "mset (q2 @ [un a b]) = mset q - {#a#} - {#b#} + {#un a b#}"
    using 1(5) 2(5) by simp
  moreover have "Suc (length (q2 @ [un a b])) = length q"
    using 1(6) 2(6) by simp
  ultimately show ?thesis using 1(3,4,5) 2(3,4) by metis
qed

lemma cascade_loop_Some:
  fixes area :: "'p list \<Rightarrow> 'a::linorder"
  shows "fst st \<noteq> [] \<Longrightarrow>
    \<exists>m calls'. cascade_loop tie area un st = Some ([m], calls') \<and>
       length calls' = length (snd st) + length (fst st) - 1 \<and>
       smallest_first_cascade area un (mset (fst st)) m"
proof (induction tie area un st rule: cascade_loop.induct)
  case (1 tie area un st)
  obtain q calls where st: "st = (q, calls)" by (cases st)
  show ?case
  proof (cases "length q > 1")
    case True
    from cascade_body_Some [OF True, of tie area un calls]
    obtain a b q' where b: "cascade_body tie area un (q, calls) = Some (q', calls @ [(a, b)])"
      "a \<in># mset q" "\<forall>x \<in># mset q. area a \<le> area x"
      "b \<in># mset q - {#a#}" "\<forall>x \<in># mset q - {#a#}. area b \<le> area x"
      "mset q' = mset q - {#a#} - {#b#} + {#un a b#}" "Suc (length q') = length q"
      by blast
    from True b(7) have ne: "fst (q', calls @ [(a, b)]) \<noteq> []" by auto
    from "1.IH" [of "(q', calls @ [(a, b)])"] True b(1) ne st
    obtain m calls' where ih: "cascade_loop tie area un (q', calls @ [(a, b)]) = Some ([m], calls')"
      "length calls' = length (calls @ [(a, b)]) + length q' - 1"
      "smallest_first_cascade area un (mset q') m"
      by auto
    have sz: "size (mset q) > 1" using True by simp
    have "smallest_first_cascade area un (mset q) m"
      using merge_two [OF sz b(2) b(3) b(4) b(5)] ih(3) b(6) by simp
    moreover have "cascade_loop tie area un st = Some ([m], calls')"
      using True b(1) ih(1) st by (subst cascade_loop.simps) simp
    moreover have "length calls' = length (snd st) + length (fst st) - 1"
      using ih(2) b(7) st by simp
    ultimately show ?thesis using st by auto
  next
    case False
    with "1.prems" st obtain m where q: "q = [m]" by (cases q) auto
    have "cascade_loop tie area un st = Some ([m], calls)"
      using st q by (subst cascade_loop.simps) simp
    moreover have "smallest_first_cascade area un (mset (fst st)) m"
      using st q by (simp add: one_left)
    ultimately show ?thesis using st q by simp
  qed
qed

lemma cascade_union_run_nonempty:
  fixes area :: "'p list \<Rightarrow> 'a::linorder"
  assumes "polygons \<noteq> []"
  shows "\<exists>m calls. cascade_union_run tie area un polygons = Some (m, calls) \<and>
           Suc (length calls) = length polygons \<and>
           smallest_first_cascade area un (mset (map (\<lambda>p. [p]) polygons)) m"
proof -
  let ?q = "map (\<lambda>p. [p]) polygons"
  have "fst (?q, []) \<noteq> []" using assms by simp
  from cascade_loop_Some [OF this, of tie area un]
  obtain m calls where l: "cascade_loop tie area un (?q, []) = Some ([m], calls)"
    "length calls = length polygons - 1" "smallest_first_cascade area un (mset ?q) m"
    by auto
  have "cascade_union_run tie area un polygons = Some (m, calls)"
    using assms l(1) by (simp add: cascade_union_run_def fold_push_singletons pq_top_single)
  then show ?thesis using l(2,3) assms by (cases polygons) auto
qed

lemma cascade_union_run_single:
  fixes area :: "'p list \<Rightarrow> 'a::linorder"
  shows "cascade_union_run tie area un [p] = Some ([p], [])"
proof -
  have "cascade_loop tie area un ([[p]], []) = Some ([[p]], [])"
    by (subst cascade_loop.simps) simp
  then show ?thesis
    by (simp add: cascade_union_run_def pq_push_def pq_top_single)
qed

lemma cascade_union_Some:
  fixes area :: "'p list \<Rightarrow> 'a::linorder"
  shows "\<exists>r. cascade_union tie area un polygons = Some r"
proof (cases "polygons = []")
  case True
  then show ?thesis by (simp add: cascade_union_def cascade_union_run_def)
next
  case False
  from cascade_union_run_nonempty [OF False, of tie area un]
  show ?thesis by (auto simp: cascade_union_def)
qed

text \<open>
  C2. For a non-empty input, \<^verbatim>\<open>cascade_union\<close> returns a result, and that result is
  one the smallest-first cascade of the specification produces from the input polygons,
  each wrapped as a single-member multi-polygon: two elements of smallest area are
  replaced by their union until one element is left, whose polygons are returned. This
  holds for every way the priority queue may resolve ties.
\<close>

theorem cascade_union_smallest_first:
  fixes area :: "'p list \<Rightarrow> 'a::linorder"
  assumes "polygons \<noteq> []"
  shows "\<exists>m. cascade_union tie area un polygons = Some m \<and>
           smallest_first_cascade area un (mset (map (\<lambda>p. [p]) polygons)) m"
  using cascade_union_run_nonempty [OF assms, of tie area un]
  by (auto simp: cascade_union_def)

theorem cascade_union_smallest_first_witness:
  "[5, 3, 9, 1 :: nat] \<noteq> [] \<and>
   (\<exists>m. cascade_union (\<lambda>q. 0) sum_list (\<lambda>a b. a @ b) [5, 3, 9, 1 :: nat] = Some m \<and>
        smallest_first_cascade sum_list (\<lambda>a b. a @ b)
          (mset (map (\<lambda>p. [p]) [5, 3, 9, 1 :: nat])) m)"
  using cascade_union_smallest_first [of "[5, 3, 9, 1 :: nat]" "\<lambda>q. 0" sum_list "\<lambda>a b. a @ b"]
  by simp

text \<open>
  C8. \<^verbatim>\<open>cascade_union\<close> of the empty sequence is the empty sequence; of a single polygon
  \<open>p\<close> it is \<open>[p]\<close>, and the log of union calls of that run is empty.
\<close>

theorem cascade_union_trivial_inputs:
  fixes area :: "'p list \<Rightarrow> 'a::linorder"
  shows "cascade_union tie area un [] = Some [] \<and>
         cascade_union tie area un [p] = Some [p] \<and>
         cascade_union_run tie area un [p] = Some ([p], [])"
  by (simp add: cascade_union_def cascade_union_run_single) (simp add: cascade_union_run_def)

theorem cascade_union_trivial_inputs_witness:
  "cascade_union (\<lambda>q. 0) sum_list (\<lambda>a b. a @ b) [] = Some ([] :: nat list) \<and>
   cascade_union (\<lambda>q. 0) sum_list (\<lambda>a b. a @ b) [7 :: nat] = Some [7] \<and>
   cascade_union_run (\<lambda>q. 0) sum_list (\<lambda>a b. a @ b) [7 :: nat] = Some ([7], [])"
  using cascade_union_trivial_inputs [of "\<lambda>q. 0" sum_list "\<lambda>a b. a @ b" "7 :: nat"]
  by simp

text \<open>
  C10. \<^verbatim>\<open>cascade_union\<close> returns for every input (the loop is a total function whose
  measure is the queue size), with \<open>n - 1\<close> union calls for \<open>n \<ge> 1\<close> input polygons; and
  one iteration of the loop, entered with more than one element, leaves the queue one
  element shorter and makes one union call.
\<close>

theorem cascade_union_terminates:
  fixes area :: "'p list \<Rightarrow> 'a::linorder"
  shows "(\<exists>r calls. cascade_union_run tie area un polygons = Some (r, calls) \<and>
            (polygons \<noteq> [] \<longrightarrow> Suc (length calls) = length polygons)) \<and>
         (length q > 1 \<longrightarrow>
            (\<exists>q' c. cascade_body tie area un (q, cs) = Some (q', cs @ [c]) \<and>
                    Suc (length q') = length q))"
proof (intro conjI impI)
  show "\<exists>r calls. cascade_union_run tie area un polygons = Some (r, calls) \<and>
          (polygons \<noteq> [] \<longrightarrow> Suc (length calls) = length polygons)"
  proof (cases "polygons = []")
    case True
    then show ?thesis by (simp add: cascade_union_run_def)
  next
    case False
    from cascade_union_run_nonempty [OF False, of tie area un] show ?thesis by blast
  qed
next
  assume "length q > 1"
  from cascade_body_Some [OF this, of tie area un cs]
  show "\<exists>q' c. cascade_body tie area un (q, cs) = Some (q', cs @ [c]) \<and>
          Suc (length q') = length q"
    by blast
qed

theorem cascade_union_terminates_witness:
  "(\<exists>r calls. cascade_union_run (\<lambda>q. 0) sum_list (\<lambda>a b. a @ b) [5, 3, 9, 1 :: nat] = Some (r, calls) \<and>
      ([5, 3, 9, 1 :: nat] \<noteq> [] \<longrightarrow> Suc (length calls) = length [5, 3, 9, 1 :: nat])) \<and>
   length [[5], [3 :: nat]] > 1 \<and>
   (\<exists>q' c. cascade_body (\<lambda>q. 0) sum_list (\<lambda>a b. a @ b) ([[5], [3 :: nat]], []) = Some (q', [] @ [c]) \<and>
      Suc (length q') = length [[5], [3 :: nat]])"
  using cascade_union_terminates [of "\<lambda>q. 0" sum_list "\<lambda>a b. a @ b" "[5, 3, 9, 1 :: nat]"
      "[[5], [3 :: nat]]" "[]"]
  by simp

section \<open>Parallel chunk executor\<close>

lemma launch_threads_eq:
  "start = chunk_start shift remainder ix \<Longrightarrow>
   launch_threads num_threads shift remainder ix start =
   map (\<lambda>i. (chunk_start shift remainder i, chunk_start shift remainder (Suc i))) [ix..<num_threads]"
proof (induction num_threads shift remainder ix start rule: launch_threads.induct)
  case (1 num_threads shift remainder ix start)
  show ?case
  proof (cases "ix < num_threads")
    case True
    let ?stop = "start + shift + (if ix < remainder then 1 else 0)"
    have stop: "?stop = chunk_start shift remainder (Suc ix)"
      using "1.prems" by (auto simp: chunk_start_def min_def)
    have "launch_threads num_threads shift remainder (Suc ix) ?stop =
          map (\<lambda>i. (chunk_start shift remainder i, chunk_start shift remainder (Suc i))) [Suc ix..<num_threads]"
      using "1.IH" [OF True refl stop] .
    then show ?thesis
      using True "1.prems" stop
      by (subst launch_threads.simps) (simp add: Let_def upt_conv_Cons del: launch_threads.simps)
  next
    case False
    then show ?thesis by (subst launch_threads.simps) simp
  qed
qed

lemma chunk_start_mono: "i \<le> j \<Longrightarrow> chunk_start shift remainder i \<le> chunk_start shift remainder j"
  unfolding chunk_start_def by (simp add: add_mono min.coboundedI1 mult_le_mono1 min_le_iff_disj)

lemma concat_chunks:
  "concat (map (\<lambda>i. [chunk_start shift remainder i..<chunk_start shift remainder (Suc i)]) [0..<k]) =
   [0..<chunk_start shift remainder k]"
proof (induction k)
  case 0
  then show ?case by (simp add: chunk_start_def)
next
  case (Suc k)
  have le: "chunk_start shift remainder k \<le> chunk_start shift remainder (Suc k)"
    by (rule chunk_start_mono) simp
  have "0 \<le> chunk_start shift remainder k" by simp
  from upt_add_eq_append [OF this, of "chunk_start shift remainder (Suc k) - chunk_start shift remainder k"] le
  have "[0..<chunk_start shift remainder (Suc k)] =
        [0..<chunk_start shift remainder k] @ [chunk_start shift remainder k..<chunk_start shift remainder (Suc k)]"
    by simp
  with Suc show ?case by simp
qed

lemma chunk_start_total:
  assumes "0 < t"
  shows "chunk_start (n div t) (n mod t) t = n"
proof -
  have "n mod t < t" using assms by simp
  then have "min t (n mod t) = n mod t" by simp
  then show ?thesis by (simp add: chunk_start_def)
qed

lemma chunk_start_le_total:
  assumes "0 < t" "i \<le> t"
  shows "chunk_start (n div t) (n mod t) i \<le> n"
  using chunk_start_mono [OF assms(2), of "n div t" "n mod t"] chunk_start_total [OF assms(1), of n]
  by simp

lemma concat_chunk_take:
  "concat (map (\<lambda>i. chunk xs (chunk_start shift remainder i, chunk_start shift remainder (Suc i))) [0..<k]) =
   take (chunk_start shift remainder k) xs"
proof (induction k)
  case 0
  then show ?case by (simp add: chunk_start_def)
next
  case (Suc k)
  let ?c = "chunk_start shift remainder"
  have le: "?c k \<le> ?c (Suc k)" by (rule chunk_start_mono) simp
  then have "take (?c (Suc k)) xs = take (?c k + (?c (Suc k) - ?c k)) xs" by simp
  also have "\<dots> = take (?c k) xs @ take (?c (Suc k) - ?c k) (drop (?c k) xs)"
    by (rule take_add)
  finally show ?case using Suc by (simp add: chunk_def)
qed

lemma parallel_for_plan_Spawn:
  assumes "2 \<le> t" "min_size < n" "t = (if num_threads = 0 then hw else num_threads)"
  shows "parallel_for_plan hw n num_threads min_size =
         Spawn (map (\<lambda>i. (chunk_start (n div t) (n mod t) i, chunk_start (n div t) (n mod t) (Suc i))) [0..<t])"
proof -
  have "launch_threads t (n div t) (n mod t) 0 0 =
        map (\<lambda>i. (chunk_start (n div t) (n mod t) i, chunk_start (n div t) (n mod t) (Suc i))) [0..<t]"
    by (rule launch_threads_eq) (simp add: chunk_start_def)
  then show ?thesis using assms
    by (auto simp: parallel_for_plan_def Let_def simp del: launch_threads.simps)
qed

lemma parallel_for_plan_Spawn_shape:
  assumes "parallel_for_plan hw n num_threads min_size = Spawn ranges"
  shows "\<exists>t>0. ranges = map (\<lambda>i. (chunk_start (n div t) (n mod t) i,
                                   chunk_start (n div t) (n mod t) (Suc i))) [0..<t]"
proof -
  define t where "t = (if num_threads = 0 then hw else num_threads)"
  from assms have "t \<noteq> 1" "\<not> n \<le> min_size" "t \<noteq> 0"
    by (auto simp: parallel_for_plan_def t_def Let_def split: if_splits)
  then have "2 \<le> t" "min_size < n" by auto
  from parallel_for_plan_Spawn [OF this t_def] assms \<open>t \<noteq> 0\<close> show ?thesis by auto
qed

lemma parallel_for_plan_Spawn_partition:
  assumes "parallel_for_plan hw n num_threads min_size = Spawn ranges"
  shows "concat (map (\<lambda>(a, b). [a..<b]) ranges) = [0..<n]"
proof -
  from parallel_for_plan_Spawn_shape [OF assms] obtain t where t: "0 < t"
    "ranges = map (\<lambda>i. (chunk_start (n div t) (n mod t) i, chunk_start (n div t) (n mod t) (Suc i))) [0..<t]"
    by blast
  have "concat (map (\<lambda>(a, b). [a..<b]) ranges) =
        concat (map (\<lambda>i. [chunk_start (n div t) (n mod t) i..<chunk_start (n div t) (n mod t) (Suc i)]) [0..<t])"
    unfolding t(2) by (simp add: comp_def)
  also have "\<dots> = [0..<chunk_start (n div t) (n mod t) t]" by (rule concat_chunks)
  also have "chunk_start (n div t) (n mod t) t = n" using t(1) by (rule chunk_start_total)
  finally show ?thesis .
qed

lemma parallel_for_plan_Direct:
  assumes "parallel_for_plan hw n num_threads min_size = Direct a b"
  shows "a = 0 \<and> b = n"
  using assms by (auto simp: parallel_for_plan_def Let_def split: if_splits)

text \<open>
  C6 (amended). Let \<open>t\<close> be the thread count, with 0 replaced by the number of hardware
  threads. With \<open>t = 1\<close>, or with the total size \<open>n\<close> below \<open>min_size\<close>, the worker is
  called once, directly, as \<open>worker(0, n)\<close>. With \<open>t \<ge> 2\<close> and \<open>n > min_size\<close>, the range
  \<open>[0, n)\<close> is split into \<open>t\<close> contiguous sub-ranges that cover every index exactly once,
  in order, the first \<open>n mod t\<close> of them one index longer than \<open>n div t\<close>. The fallback
  compares the total size, not the size of a sub-range, with the minimum.
\<close>

theorem parallel_for_plan_partition:
  assumes t: "t = (if num_threads = 0 then hw else num_threads)"
  shows "(t = 1 \<or> n < min_size \<longrightarrow> parallel_for_plan hw n num_threads min_size = Direct 0 n) \<and>
         (2 \<le> t \<and> min_size < n \<longrightarrow>
            (\<exists>rs. parallel_for_plan hw n num_threads min_size = Spawn rs \<and> length rs = t \<and>
               concat (map (\<lambda>(a, b). [a..<b]) rs) = [0..<n] \<and>
               (\<forall>i<t. rs ! i = (i * (n div t) + min i (n mod t),
                                 Suc i * (n div t) + min (Suc i) (n mod t))) \<and>
               (\<forall>i<t. snd (rs ! i) - fst (rs ! i) = n div t + (if i < n mod t then 1 else 0))))"
proof (intro conjI impI)
  assume "t = 1 \<or> n < min_size"
  then show "parallel_for_plan hw n num_threads min_size = Direct 0 n"
    using t by (auto simp: parallel_for_plan_def Let_def simp del: launch_threads.simps)
next
  assume a: "2 \<le> t \<and> min_size < n"
  let ?cs = "chunk_start (n div t) (n mod t)"
  let ?rs = "map (\<lambda>i. (?cs i, ?cs (Suc i))) [0..<t]"
  have p: "parallel_for_plan hw n num_threads min_size = Spawn ?rs"
    using a t by (intro parallel_for_plan_Spawn) auto
  have "concat (map (\<lambda>(a, b). [a..<b]) ?rs) = concat (map (\<lambda>i. [?cs i..<?cs (Suc i)]) [0..<t])"
    by (simp add: comp_def)
  also have "\<dots> = [0..<?cs t]" by (rule concat_chunks)
  also have "?cs t = n" using a by (intro chunk_start_total) simp
  finally have c: "concat (map (\<lambda>(a, b). [a..<b]) ?rs) = [0..<n]" .
  have f: "\<forall>i<t. ?rs ! i = (i * (n div t) + min i (n mod t), Suc i * (n div t) + min (Suc i) (n mod t))"
    by (simp add: chunk_start_def)
  have g: "\<forall>i<t. snd (?rs ! i) - fst (?rs ! i) = n div t + (if i < n mod t then 1 else 0)"
    by (auto simp: chunk_start_def min_def)
  show "\<exists>rs. parallel_for_plan hw n num_threads min_size = Spawn rs \<and> length rs = t \<and>
               concat (map (\<lambda>(a, b). [a..<b]) rs) = [0..<n] \<and>
               (\<forall>i<t. rs ! i = (i * (n div t) + min i (n mod t),
                                 Suc i * (n div t) + min (Suc i) (n mod t))) \<and>
               (\<forall>i<t. snd (rs ! i) - fst (rs ! i) = n div t + (if i < n mod t then 1 else 0))"
    using p c f g by (intro exI [of _ ?rs]) simp
qed

theorem parallel_for_plan_partition_witness:
  "parallel_for_plan 4 10 1 1 = Direct 0 10 \<and>
   parallel_for_plan 4 3 0 5 = Direct 0 3 \<and>
   (\<exists>rs. parallel_for_plan 4 10 0 1 = Spawn rs \<and> length rs = 4 \<and>
       concat (map (\<lambda>(a, b). [a..<b]) rs) = [0..<10] \<and>
       rs ! 0 = (0, 3) \<and> rs ! 1 = (3, 6) \<and> rs ! 2 = (6, 8) \<and> rs ! 3 = (8, 10))"
proof -
  have a: "parallel_for_plan 4 10 1 1 = Direct 0 10"
    using parallel_for_plan_partition [of 1 1 4 10 1] by simp
  have b: "parallel_for_plan 4 3 0 5 = Direct 0 3"
    using parallel_for_plan_partition [of 4 0 4 3 5] by simp
  from parallel_for_plan_partition [of 4 0 4 10 1]
  obtain rs where rs: "parallel_for_plan 4 10 0 1 = Spawn rs" "length rs = 4"
    "concat (map (\<lambda>(a, b). [a..<b]) rs) = [0..<10]"
    "\<forall>i<4. rs ! i = (i * (10 div 4) + min i (10 mod 4), Suc i * (10 div 4) + min (Suc i) (10 mod 4))"
    by auto
  from rs(4) have "rs ! 0 = (0, 3)" "rs ! 1 = (3, 6)" "rs ! 2 = (6, 8)" "rs ! 3 = (8, 10)"
    by simp_all
  with a b rs(1,2,3) show ?thesis by blast
qed

text \<open>
  C6 as stated fails: with 10 indices, 4 threads and a minimum of 5, every sub-range is
  shorter than the minimum, and four threads are launched all the same.
\<close>

theorem parallel_for_min_size_counterexample:
  "parallel_for_plan 8 10 4 5 = Spawn [(0, 3), (3, 6), (6, 8), (8, 10)] \<and>
   (3::nat) - 0 < 5 \<and> (6::nat) - 3 < 5 \<and> (8::nat) - 6 < 5 \<and> (10::nat) - 8 < 5 \<and>
   parallel_for_plan 8 10 4 5 \<noteq> Direct 0 10"
  by (simp add: parallel_for_plan_def launch_threads.simps)

lemma thread_step_length [simp]: "length (threads (thread_step worker i cfg)) = length (threads cfg)"
  by (simp add: thread_step_def split: thread.splits wres.splits prod.splits)

lemma thread_step_other:
  "j \<noteq> i \<Longrightarrow> threads (thread_step worker i cfg) ! j = threads cfg ! j"
  by (simp add: thread_step_def split: thread.splits wres.splits prod.splits)

lemma thread_step_running:
  assumes "i < length (threads cfg)" "threads cfg ! i = Running l" "worker l (shared cfg) = (r, s')"
  shows "thread_step worker i cfg =
         cfg\<lparr>threads := (threads cfg)[i := thread_after r],
             exception_ptr := (case r of Raise e \<Rightarrow> Some e | _ \<Rightarrow> exception_ptr cfg),
             shared := s'\<rparr>"
  using assms by (cases r) (simp_all add: thread_step_def)

lemma thread_step_not_running:
  assumes "\<not> (i < length (threads cfg) \<and> is_running (threads cfg ! i))"
  shows "thread_step worker i cfg = cfg"
  using assms by (cases "threads cfg ! i") (auto simp: thread_step_def)




lemma fold_thread_step_length [simp]:
  "length (threads (fold (thread_step worker) sched cfg)) = length (threads cfg)"
  by (induction sched arbitrary: cfg) simp_all


lemma run_threads_length [simp]: "length (threads (run_threads worker init sched ranges s)) = length ranges"
  by (simp add: run_threads_def)

text \<open>
  The direct call is a run of one thread: what holds of every schedule of the threads
  of a partition of the range holds of the direct call too.
\<close>

lemma call_worker_as_thread:
  "call_worker worker fuel l s = Some out \<Longrightarrow>
   \<exists>sched. join_threads (fold (thread_step worker) sched
              \<lparr>threads = [Running l], exception_ptr = None, shared = s\<rparr>) = Some out"
proof (induction fuel arbitrary: l s)
  case 0
  then show ?case by simp
next
  case (Suc fuel)
  obtain r s' where w: "worker l s = (r, s')" by (cases "worker l s")
  let ?cfg = "\<lparr>threads = [Running l], exception_ptr = None, shared = s\<rparr>"
  show ?case
  proof (cases r)
    case (Continue l')
    with Suc.prems w have "call_worker worker fuel l' s' = Some out" by simp
    from Suc.IH [OF this] obtain sched where
      "join_threads (fold (thread_step worker) sched
         \<lparr>threads = [Running l'], exception_ptr = None, shared = s'\<rparr>) = Some out" by blast
    moreover have "thread_step worker 0 ?cfg = \<lparr>threads = [Running l'], exception_ptr = None, shared = s'\<rparr>"
      using w Continue by (simp add: thread_step_def)
    ultimately have "join_threads (fold (thread_step worker) (0 # sched) ?cfg) = Some out" by simp
    then show ?thesis by blast
  next
    case Done
    with Suc.prems w have "out = Returned s'" by simp
    moreover have "thread_step worker 0 ?cfg = \<lparr>threads = [Completed], exception_ptr = None, shared = s'\<rparr>"
      using w Done by (simp add: thread_step_def)
    ultimately have "join_threads (fold (thread_step worker) [0] ?cfg) = Some out"
      by (simp add: join_threads_def)
    then show ?thesis by blast
  next
    case (Raise e)
    with Suc.prems w have "out = Thrown e s'" by simp
    moreover have "thread_step worker 0 ?cfg = \<lparr>threads = [Caught e], exception_ptr = Some e, shared = s'\<rparr>"
      using w Raise by (simp add: thread_step_def)
    ultimately have "join_threads (fold (thread_step worker) [0] ?cfg) = Some out"
      by (simp add: join_threads_def)
    then show ?thesis by blast
  next
    case Undefined
    with Suc.prems w have "out = Crash" by simp
    moreover have "thread_step worker 0 ?cfg = \<lparr>threads = [Faulted], exception_ptr = None, shared = s'\<rparr>"
      using w Undefined by (simp add: thread_step_def)
    ultimately have "join_threads (fold (thread_step worker) [0] ?cfg) = Some out"
      by (simp add: join_threads_def)
    then show ?thesis by blast
  qed
qed

lemma worker_steps_call:
  "worker_steps worker k (l, s) = Some (l', s') \<Longrightarrow>
   call_worker worker (k + fuel) l s = call_worker worker fuel l' s'"
proof (induction k arbitrary: l s)
  case 0
  then show ?case by simp
next
  case (Suc k)
  then show ?case
    by (cases "worker l s"; cases "fst (worker l s)") (auto split: wres.splits)
qed

lemma worker_steps_add:
  "worker_steps worker j ls = Some ls' \<Longrightarrow> worker_steps worker k ls' = Some ls'' \<Longrightarrow>
   worker_steps worker (j + k) ls = Some ls''"
proof (induction j arbitrary: ls)
  case 0
  then show ?case by simp
next
  case (Suc j)
  then show ?case
    by (cases "worker (fst ls) (snd ls)"; cases "fst (worker (fst ls) (snd ls))")
       (auto split: wres.splits)
qed

lemma worker_steps_one:
  "worker (fst ls) (snd ls) = (Continue l', s') \<Longrightarrow> worker_steps worker (Suc 0) ls = Some (l', s')"
  by simp

lemma sum_list_map_update:
  fixes f :: "'x \<Rightarrow> 'y::comm_monoid_add"
  shows "i < length ts \<Longrightarrow> sum_list (map f (ts[i := x])) + f (ts ! i) = sum_list (map f ts) + f x"
proof (induction ts arbitrary: i)
  case Nil
  then show ?case by simp
next
  case (Cons t ts)
  show ?case
  proof (cases i)
    case 0
    then show ?thesis by (simp add: add.commute add.left_commute)
  next
    case (Suc j)
    with Cons.prems have "j < length ts" by simp
    from Cons.IH [OF this] Suc show ?thesis by (simp add: add.assoc)
  qed
qed

lemma sum_list_all_zero:
  fixes f :: "'x \<Rightarrow> 'y::comm_monoid_add"
  shows "\<forall>x \<in> set xs. f x = 0 \<Longrightarrow> sum_list (map f xs) = 0"
  by (induction xs) simp_all

text \<open>
  Progress. A worker is bounded by a measure \<open>m\<close> on its local state when every continuing
  action decreases \<open>m\<close>, whatever the shared state: the worker then ends within \<open>m l + 1\<close>
  actions of its own from the local state \<open>l\<close>, in any interleaving with other threads.
  A thread that has more turns than that in the schedule has ended at the end of the
  schedule, and \<^verbatim>\<open>parallel_for\<close> comes back when every thread has at least \<open>k\<close> turns,
  for a bound \<open>k\<close> above the measure of the initial local states.
\<close>

lemma fold_thread_step_ends:
  fixes m :: "'l \<Rightarrow> nat"
  assumes dec: "\<And>l s l' s'. worker l s = (Continue l', s') \<Longrightarrow> m l' < m l"
  shows "i < length (threads cfg) \<Longrightarrow>
         (\<And>l. threads cfg ! i = Running l \<Longrightarrow> m l < count_list sched i) \<Longrightarrow>
         \<not> is_running (threads (fold (thread_step worker) sched cfg) ! i)"
proof (induction sched arbitrary: cfg)
  case Nil
  then show ?case by (cases "threads cfg ! i") auto
next
  case (Cons j sched)
  let ?cfg = "thread_step worker j cfg"
  have len: "i < length (threads ?cfg)" using Cons.prems(1) by simp
  have "\<And>l. threads ?cfg ! i = Running l \<Longrightarrow> m l < count_list sched i"
  proof -
    fix l assume r: "threads ?cfg ! i = Running l"
    show "m l < count_list sched i"
    proof (cases "j = i")
      case False
      then have "threads ?cfg ! i = threads cfg ! i" by (simp add: thread_step_other)
      with r Cons.prems(2) [of l] False show ?thesis by simp
    next
      case True
      show ?thesis
      proof (cases "threads cfg ! i")
        case (Running l0)
        obtain r0 s' where w: "worker l0 (shared cfg) = (r0, s')" by (cases "worker l0 (shared cfg)")
        from thread_step_running [of i cfg l0 worker r0 s', OF Cons.prems(1) Running w] True Cons.prems(1)
        have "threads ?cfg ! i = thread_after r0" by simp
        with r have "r0 = Continue l" by (cases r0) auto
        with w dec have "m l < m l0" by blast
        moreover from Cons.prems(2) [OF Running] True have "m l0 < Suc (count_list sched i)" by simp
        ultimately show ?thesis by simp
      next
        case Completed
        have "?cfg = cfg" using True Completed by (intro thread_step_not_running) simp
        then show ?thesis using r Completed by simp
      next
        case (Caught e)
        have "?cfg = cfg" using True Caught by (intro thread_step_not_running) simp
        then show ?thesis using r Caught by simp
      next
        case Faulted
        have "?cfg = cfg" using True Faulted by (intro thread_step_not_running) simp
        then show ?thesis using r Faulted by simp
      qed
    qed
  qed
  from Cons.IH [OF len this] show ?case by simp
qed

lemma call_worker_ends:
  fixes m :: "'l \<Rightarrow> nat"
  assumes dec: "\<And>l s l' s'. worker l s = (Continue l', s') \<Longrightarrow> m l' < m l"
  shows "m l < fuel \<Longrightarrow> \<exists>out. call_worker worker fuel l s = Some out"
proof (induction fuel arbitrary: l s)
  case 0
  then show ?case by simp
next
  case (Suc fuel)
  obtain r s' where w: "worker l s = (r, s')" by (cases "worker l s")
  show ?case
  proof (cases r)
    case (Continue l')
    with w dec have "m l' < m l" by blast
    with Suc.prems have "m l' < fuel" by simp
    from Suc.IH [OF this, of s'] w Continue show ?thesis by simp
  qed (use w in simp_all)
qed

lemma count_list_le_length: "count_list xs x \<le> length xs"
  by (induction xs) auto

lemma parallel_for_plan_Spawn_count:
  assumes "parallel_for_plan hw n num_threads min_size = Spawn ranges"
  shows "length ranges = (if num_threads = 0 then hw else num_threads) \<and>
         (\<forall>r \<in> set ranges. fst r \<le> snd r \<and> snd r \<le> n)"
proof -
  define t where "t = (if num_threads = 0 then hw else num_threads)"
  from assms have "t \<noteq> 1" "\<not> n \<le> min_size" "t \<noteq> 0"
    by (auto simp: parallel_for_plan_def t_def Let_def split: if_splits)
  then have t2: "2 \<le> t" "min_size < n" by auto
  from parallel_for_plan_Spawn [OF this t_def] assms
  have r: "ranges = map (\<lambda>i. (chunk_start (n div t) (n mod t) i, chunk_start (n div t) (n mod t) (Suc i))) [0..<t]"
    by simp
  have "0 < t" using t2 by simp
  have "\<forall>r \<in> set ranges. fst r \<le> snd r \<and> snd r \<le> n"
    unfolding r using chunk_start_le_total [OF \<open>0 < t\<close>, of _ n] chunk_start_mono [of _ _ "n div t" "n mod t"]
    by auto
  with r show ?thesis by (simp add: t_def)
qed

lemma parallel_for_ends:
  fixes worker :: "'l \<Rightarrow> 's \<Rightarrow> ('l, 'e) wres \<times> 's" and m :: "'l \<Rightarrow> nat"
  assumes dec: "\<And>l s l' s'. worker l s = (Continue l', s') \<Longrightarrow> m l' < m l"
    and k: "\<And>a b. a \<le> b \<Longrightarrow> b \<le> sz \<Longrightarrow> m (init a b) < k"
    and nz: "0 < (if num_threads = 0 then hw else num_threads)"
    and turns: "\<forall>i<(if num_threads = 0 then hw else num_threads). k \<le> count_list sched i"
  shows "\<exists>out. parallel_for hw sched worker init sz num_threads min_size s = Some out"
proof (cases "parallel_for_plan hw sz num_threads min_size")
  case (Direct a b)
  from parallel_for_plan_Direct [OF Direct] have ab: "a = 0" "b = sz" by simp_all
  from nz turns have "k \<le> count_list sched 0" by simp
  also have "\<dots> \<le> length sched" by (rule count_list_le_length)
  finally have "m (init 0 sz) < length sched" using k [of 0 sz] by simp
  from call_worker_ends [of worker m, OF dec this] Direct ab show ?thesis
    by (simp add: parallel_for_def)
next
  case (Spawn ranges)
  from parallel_for_plan_Spawn_count [OF Spawn]
  have len: "length ranges = (if num_threads = 0 then hw else num_threads)"
    and rng: "\<forall>r \<in> set ranges. fst r \<le> snd r \<and> snd r \<le> sz" by simp_all
  define cfg where "cfg = run_threads worker init sched ranges s"
  have "\<not> is_running (threads cfg ! i)" if i: "i < length ranges" for i
    unfolding cfg_def run_threads_def
  proof (rule fold_thread_step_ends [of worker m, OF dec])
    show "i < length (threads \<lparr>threads = map (\<lambda>(start, stop). Running (init start stop)) ranges,
              exception_ptr = None, shared = s\<rparr>)" using i by simp
    fix l
    assume "threads \<lparr>threads = map (\<lambda>(start, stop). Running (init start stop)) ranges,
              exception_ptr = None, shared = s\<rparr> ! i = Running l"
    then have l: "l = init (fst (ranges ! i)) (snd (ranges ! i))" using i by (simp add: case_prod_beta)
    from rng i have "fst (ranges ! i) \<le> snd (ranges ! i)" "snd (ranges ! i) \<le> sz" by simp_all
    from k [OF this] l have "m l < k" by simp
    also have "k \<le> count_list sched i" using turns i len by simp
    finally show "m l < count_list sched i" .
  qed
  then have "\<not> list_ex is_running (threads cfg)"
    by (auto simp: list_ex_iff in_set_conv_nth cfg_def)
  then have "\<exists>out. join_threads cfg = Some out"
    by (simp add: join_threads_def split: option.splits)
  with Spawn show ?thesis by (simp add: parallel_for_def cfg_def)
next
  case DivisionByZero
  then show ?thesis by (simp add: parallel_for_def)
qed







section \<open>Merge applier\<close>

lemma reduce_records_append:
  "reduce_records tie area un (xs @ ys) = reduce_records tie area un xs @ reduce_records tie area un ys"
  by (simp add: reduce_records_def)

lemma reduce_records_concat:
  "reduce_records tie area un (concat xss) = concat (map (reduce_records tie area un) xss)"
  by (induction xss) (simp_all add: reduce_records_append, simp add: reduce_records_def)

lemma merge_overlapping_range_eq:
  fixes area :: "'p list \<Rightarrow> 'a::linorder"
  assumes "i1 \<le> length overlap"
  shows "merge_overlapping_range tie area un overlap ix i1 result =
         Some (result @ reduce_records tie area un (chunk overlap (ix, i1)))"
  using assms
proof (induction tie area un overlap ix i1 result rule: merge_overlapping_range.induct)
  case (1 tie area un overlap ix i1 result)
  show ?case
  proof (cases "ix < i1")
    case False
    then show ?thesis
      by (subst merge_overlapping_range.simps) (simp add: chunk_def reduce_records_def)
  next
    case True
    with "1.prems" have lt: "ix < length overlap" by simp
    obtain unioned where u: "cascade_union tie area un (snd (overlap ! ix)) = Some unioned"
      using cascade_union_Some [of tie area un "snd (overlap ! ix)"] by blast
    have ch: "chunk overlap (ix, i1) = overlap ! ix # chunk overlap (Suc ix, i1)"
    proof -
      have "i1 - ix = Suc (i1 - Suc ix)" using True by simp
      moreover have "drop ix overlap = overlap ! ix # drop (Suc ix) overlap"
        using lt by (simp add: Cons_nth_drop_Suc)
      ultimately show ?thesis by (simp add: chunk_def)
    qed
    show ?thesis
    proof (cases "unioned = []")
      case True
      have "merge_overlapping_range tie area un overlap (Suc ix) i1 result =
            Some (result @ reduce_records tie area un (chunk overlap (Suc ix, i1)))"
        using "1.IH"(1) [OF \<open>ix < i1\<close> lt refl u True "1.prems"] .
      then show ?thesis using \<open>ix < i1\<close> lt u True ch
        by (subst merge_overlapping_range.simps) (simp add: reduce_records_def)
    next
      case False
      have "merge_overlapping_range tie area un overlap (Suc ix) i1 (result @ [(fst (overlap ! ix), unioned)]) =
            Some ((result @ [(fst (overlap ! ix), unioned)]) @ reduce_records tie area un (chunk overlap (Suc ix, i1)))"
        using "1.IH"(2) [OF \<open>ix < i1\<close> lt refl u False "1.prems"] .
      moreover obtain f rs where "unioned = f # rs" using False by (cases unioned) auto
      ultimately show ?thesis using \<open>ix < i1\<close> lt u False ch
        by (subst merge_overlapping_range.simps) (simp add: reduce_records_def)
    qed
  qed
qed

lemma merge_locked_append:
  "merge_locked union_pp (xs @ ys) sh =
   (case merge_locked union_pp xs sh of None \<Rightarrow> None | Some sh' \<Rightarrow> merge_locked union_pp ys sh')"
  by (induction xs arbitrary: sh) (simp_all split: option.splits)

lemma merge_locked_reduce:
  fixes area :: "'p list \<Rightarrow> 'a::linorder"
  shows "merge_locked union_pp (reduce_records tie area un records) sh = Some sh' \<Longrightarrow>
         fold (merge_record tie area un union_pp) records (water_polygons sh, extra_polygons sh) =
         (water_polygons sh', extra_polygons sh')"
proof (induction records arbitrary: sh)
  case Nil
  then show ?case by (simp add: reduce_records_def)
next
  case (Cons item records)
  obtain unioned where u: "cascade_union tie area un (snd item) = Some unioned"
    using cascade_union_Some [of tie area un "snd item"] by blast
  show ?case
  proof (cases unioned)
    case Nil
    with u have r: "reduce_records tie area un (item # records) = reduce_records tie area un records"
      by (simp add: reduce_records_def)
    have m: "merge_record tie area un union_pp item (water_polygons sh, extra_polygons sh) =
             (water_polygons sh, extra_polygons sh)"
      using u Nil by (simp add: merge_record_def)
    from Cons.IH [of sh] Cons.prems r m show ?thesis by simp
  next
    case (Cons first rest)
    with u have r: "reduce_records tie area un (item # records) =
                    (fst item, first # rest) # reduce_records tie area un records"
      by (simp add: reduce_records_def)
    from Cons.prems r obtain sh1 where
      1: "merge_item union_pp (fst item, first # rest) sh = Some sh1" and
      2: "merge_locked union_pp (reduce_records tie area un records) sh1 = Some sh'"
      by (auto split: option.splits)
    have m: "merge_record tie area un union_pp item (water_polygons sh, extra_polygons sh) =
             (water_polygons sh1, extra_polygons sh1)"
      using 1 u Cons
      by (auto simp: merge_record_def merge_item_def Let_def split: if_splits list.splits)
    from Cons.IH [OF 2] m show ?thesis by simp
  qed
qed

lemma completed_update_same:
  "i < length ts \<Longrightarrow> ts ! i \<noteq> Completed \<Longrightarrow> x \<noteq> Completed \<Longrightarrow>
   {t. t < n \<and> ts[i := x] ! t = Completed} = {t. t < n \<and> ts ! t = Completed}"
  by (auto simp: nth_list_update)

lemma completed_update_new:
  "i < length ts \<Longrightarrow> i < n \<Longrightarrow>
   {t. t < n \<and> ts[i := Completed] ! t = Completed} = insert i {t. t < n \<and> ts ! t = Completed}"
  by (auto simp: nth_list_update)

lemma merge_inv_step:
  fixes area :: "'p list \<Rightarrow> 'a::linorder"
    and cfg :: "('p merge_local, 'p merge_shared, 'e) pf_state"
  assumes inv: "merge_inv tie area un union_pp overlap water ranges cfg"
    and rng: "\<forall>r \<in> set ranges. snd r \<le> length overlap"
  shows "merge_inv tie area un union_pp overlap water ranges
           (thread_step (merge_worker tie area un union_pp overlap) i cfg)"
proof (cases "i < length (threads cfg) \<and> is_running (threads cfg ! i)")
  case False
  then have "thread_step (merge_worker tie area un union_pp overlap) i cfg = cfg"
    by (cases "threads cfg ! i") (auto simp: thread_step_def)
  with inv show ?thesis by simp
next
  case True
  let ?W = "merge_worker tie area un union_pp overlap :: 'p merge_local \<Rightarrow> 'p merge_shared \<Rightarrow> ('p merge_local, 'e) wres \<times> 'p merge_shared"
  let ?ups = "\<lambda>t. reduce_records tie area un (chunk overlap (ranges ! t))"
  let ?init = "\<lparr>water_polygons = water, extra_polygons = []\<rparr>"
  from inv have len: "length (threads cfg) = length ranges" and ex: "exception_ptr cfg = None"
    and st: "\<forall>t<length ranges.
          threads cfg ! t = Running (MergeStart (fst (ranges ! t)) (snd (ranges ! t))) \<or>
          threads cfg ! t = Running (MergeLocked (?ups t)) \<or>
          threads cfg ! t = Completed \<or> threads cfg ! t = Faulted"
    by (simp_all add: merge_inv_def)
  from inv obtain order where ord: "distinct order"
    "set order = {t. t < length ranges \<and> threads cfg ! t = Completed}"
    "merge_locked union_pp (reduce_records tie area un (concat (map (\<lambda>t. chunk overlap (ranges ! t)) order)))
       ?init = Some (shared cfg)"
    unfolding merge_inv_def by blast
  from True len have i: "i < length ranges" by simp
  from True st i have run: "threads cfg ! i = Running (MergeStart (fst (ranges ! i)) (snd (ranges ! i))) \<or>
      threads cfg ! i = Running (MergeLocked (?ups i))"
    by auto
  have others: "\<And>t x. t \<noteq> i \<Longrightarrow> (threads cfg)[i := x] ! t = threads cfg ! t" by simp
  have self: "\<And>x. (threads cfg)[i := x] ! i = x" using True by simp
  from run show ?thesis
  proof
    assume a: "threads cfg ! i = Running (MergeStart (fst (ranges ! i)) (snd (ranges ! i)))"
    have "snd (ranges ! i) \<le> length overlap" using rng i by simp
    then have r: "merge_overlapping_range tie area un overlap (fst (ranges ! i)) (snd (ranges ! i)) [] =
                  Some (?ups i)"
      using merge_overlapping_range_eq [of "snd (ranges ! i)" overlap tie area un "fst (ranges ! i)" "[]"]
      by simp
    have step: "thread_step ?W i cfg = cfg\<lparr>threads := (threads cfg)[i := Running (MergeLocked (?ups i))]\<rparr>"
      using True a r by (simp add: thread_step_def merge_worker_def)
    have c: "{t. t < length ranges \<and> (threads cfg)[i := Running (MergeLocked (?ups i))] ! t = Completed} =
             {t. t < length ranges \<and> threads cfg ! t = Completed}"
      using True a by (intro completed_update_same) simp_all
    show ?thesis
      unfolding step merge_inv_def
      using len ex st ord c i
      apply (intro conjI)
         apply simp
        apply simp
       apply (simp add: nth_list_update)
      apply (rule exI [of _ order])
      apply simp
      done
  next
    assume a: "threads cfg ! i = Running (MergeLocked (?ups i))"
    show ?thesis
    proof (cases "merge_locked union_pp (?ups i) (shared cfg)")
      case None
      have step: "thread_step ?W i cfg = cfg\<lparr>threads := (threads cfg)[i := Faulted]\<rparr>"
        using True a None by (simp add: thread_step_def merge_worker_def)
      have c: "{t. t < length ranges \<and> (threads cfg)[i := Faulted] ! t = Completed} =
               {t. t < length ranges \<and> threads cfg ! t = Completed}"
        using True a by (intro completed_update_same) simp_all
      show ?thesis
        unfolding step merge_inv_def
        using len ex st ord c i
        apply (intro conjI)
           apply simp
          apply simp
         apply (simp add: nth_list_update)
        apply (rule exI [of _ order])
        apply simp
        done
    next
      case (Some sh')
      have step: "thread_step ?W i cfg = cfg\<lparr>threads := (threads cfg)[i := Completed], shared := sh'\<rparr>"
        using True a Some by (simp add: thread_step_def merge_worker_def)
      have notin: "i \<notin> set order" using ord(2) a by simp
      have c: "{t. t < length ranges \<and> (threads cfg)[i := Completed] ! t = Completed} =
               set (order @ [i])"
        using ord(2) i True completed_update_new [of i "threads cfg" "length ranges"] by simp
      have m: "merge_locked union_pp
                 (reduce_records tie area un (concat (map (\<lambda>t. chunk overlap (ranges ! t)) (order @ [i]))))
                 ?init = Some sh'"
        using ord(3) Some by (simp add: reduce_records_append merge_locked_append)
      show ?thesis
        unfolding step merge_inv_def
        using len ex st i
        apply (intro conjI)
           apply simp
          apply simp
         apply (simp add: nth_list_update)
        apply (rule exI [of _ "order @ [i]"])
        using ord(1) notin c m apply simp
        done
    qed
  qed
qed

lemma merge_inv_fold:
  fixes area :: "'p list \<Rightarrow> 'a::linorder"
    and cfg :: "('p merge_local, 'p merge_shared, 'e) pf_state"
  assumes "merge_inv tie area un union_pp overlap water ranges cfg"
    and "\<forall>r \<in> set ranges. snd r \<le> length overlap"
  shows "merge_inv tie area un union_pp overlap water ranges
           (fold (thread_step (merge_worker tie area un union_pp overlap)) sched cfg)"
  using assms
  by (induction sched arbitrary: cfg) (simp_all add: merge_inv_step)

lemma merge_inv_run:
  fixes area :: "'p list \<Rightarrow> 'a::linorder"
  assumes "\<forall>r \<in> set ranges. snd r \<le> length overlap"
  shows "merge_inv tie area un union_pp overlap water ranges
           (run_threads (merge_worker tie area un union_pp overlap) MergeStart sched ranges
              \<lparr>water_polygons = water, extra_polygons = []\<rparr>)"
  unfolding run_threads_def
proof (rule merge_inv_fold [OF _ assms])
  show "merge_inv tie area un union_pp overlap water ranges
     \<lparr>threads = map (\<lambda>(start, stop). Running (MergeStart start stop)) ranges, exception_ptr = None,
        shared = \<lparr>water_polygons = water, extra_polygons = []\<rparr>\<rparr>"
    unfolding merge_inv_def
    apply (intro conjI)
       apply simp
      apply simp
     apply (simp add: case_prod_beta)
    apply (rule exI [of _ "[]"])
    apply (simp add: reduce_records_def case_prod_beta)
    done
qed

lemma mset_concat_map_perm:
  "mset xs = mset ys \<Longrightarrow> mset (concat (map f xs)) = mset (concat (map f ys))"
proof -
  assume a: "mset xs = mset ys"
  have "\<And>zs. mset (concat (map f zs)) = (\<Sum>x\<in>#mset zs. mset (f x))"
    by (induct_tac zs) simp_all
  with a show ?thesis by simp
qed

lemma merge_record_frame:
  "merge_record tie area un union_pp record (base, queue) = (base', queue') \<Longrightarrow>
   length base' = length base \<and> (\<forall>j. j \<noteq> fst record \<longrightarrow> base' ! j = base ! j)"
  by (auto simp: merge_record_def split: option.splits list.splits)

lemma fold_merge_record_frame:
  "fold (merge_record tie area un union_pp) records (base, queue) = (base', queue') \<Longrightarrow>
   length base' = length base \<and> (\<forall>j. j \<notin> fst ` set records \<longrightarrow> base' ! j = base ! j)"
proof (induction records arbitrary: base queue)
  case Nil
  then show ?case by simp
next
  case (Cons r records)
  obtain b1 q1 where 1: "merge_record tie area un union_pp r (base, queue) = (b1, q1)"
    by (cases "merge_record tie area un union_pp r (base, queue)")
  from Cons.prems 1 have 2: "fold (merge_record tie area un union_pp) records (b1, q1) = (base', queue')"
    by simp
  from merge_record_frame [OF 1] Cons.IH [OF 2] show ?case by auto
qed

lemma fold_append_polygons: "fold (\<lambda>polygon w. w @ [polygon]) ps w = w @ ps"
  by (induction ps arbitrary: w) simp_all

text \<open>
  When every record names a slot of the base collection, the section under the mutex
  meets no undefined behaviour and keeps the length of the base collection, so that no
  worker of the merge faults, under any schedule. (A record index outside the base
  collection is undefined behaviour in the source.)
\<close>

lemma merge_item_Some:
  assumes "fst item < length (water_polygons sh)" "snd item \<noteq> []"
  shows "\<exists>sh'. merge_item union_pp item sh = Some sh' \<and>
               length (water_polygons sh') = length (water_polygons sh)"
proof -
  from assms(2) obtain front others where "snd item = front # others" by (cases "snd item") auto
  with assms(1) show ?thesis
    by (cases "union_pp (water_polygons sh ! fst item) front") (simp_all add: merge_item_def)
qed

lemma merge_locked_Some:
  "\<forall>item \<in> set items. fst item < length (water_polygons sh) \<and> snd item \<noteq> [] \<Longrightarrow>
   \<exists>sh'. merge_locked union_pp items sh = Some sh' \<and>
         length (water_polygons sh') = length (water_polygons sh)"
proof (induction items arbitrary: sh)
  case Nil
  then show ?case by simp
next
  case (Cons item items)
  from Cons.prems have "fst item < length (water_polygons sh)" "snd item \<noteq> []" by simp_all
  from merge_item_Some [OF this, of union_pp] obtain sh1 where
    1: "merge_item union_pp item sh = Some sh1" "length (water_polygons sh1) = length (water_polygons sh)"
    by blast
  with Cons.prems have "\<forall>item \<in> set items. fst item < length (water_polygons sh1) \<and> snd item \<noteq> []"
    by simp
  from Cons.IH [OF this] 1 show ?case by auto
qed

lemma reduce_records_items:
  "item \<in> set (reduce_records tie area un records) \<Longrightarrow> fst item \<in> fst ` set records \<and> snd item \<noteq> []"
  by (force simp: reduce_records_def split: option.splits list.splits)

lemma set_chunk: "set (chunk xs r) \<subseteq> set xs"
  unfolding chunk_def by (meson set_drop_subset set_take_subset subset_trans)

lemma merge_valid_step:
  fixes area :: "'p list \<Rightarrow> 'a::linorder"
    and cfg :: "('p merge_local, 'p merge_shared, 'e) pf_state"
  assumes inv: "merge_inv tie area un union_pp overlap water ranges cfg"
    and rng: "\<forall>r \<in> set ranges. snd r \<le> length overlap"
    and valid: "\<forall>record \<in> set overlap. fst record < length water"
    and mv: "merge_valid water (length ranges) cfg"
  shows "merge_valid water (length ranges)
           (thread_step (merge_worker tie area un union_pp overlap) i cfg)"
proof (cases "i < length (threads cfg) \<and> is_running (threads cfg ! i)")
  case False
  then have "thread_step (merge_worker tie area un union_pp overlap) i cfg = cfg"
    by (intro thread_step_not_running)
  with mv show ?thesis by simp
next
  case True
  let ?W = "merge_worker tie area un union_pp overlap :: 'p merge_local \<Rightarrow> 'p merge_shared \<Rightarrow> ('p merge_local, 'e) wres \<times> 'p merge_shared"
  let ?ups = "\<lambda>t. reduce_records tie area un (chunk overlap (ranges ! t))"
  from inv have len: "length (threads cfg) = length ranges"
    and st: "\<forall>t<length ranges.
          threads cfg ! t = Running (MergeStart (fst (ranges ! t)) (snd (ranges ! t))) \<or>
          threads cfg ! t = Running (MergeLocked (?ups t)) \<or>
          threads cfg ! t = Completed \<or> threads cfg ! t = Faulted"
    by (simp_all add: merge_inv_def)
  from mv have wl: "length (water_polygons (shared cfg)) = length water"
    and nf: "\<forall>t<length ranges. threads cfg ! t \<noteq> Faulted"
    by (simp_all add: merge_valid_def)
  from True len have i: "i < length ranges" by simp
  from True st i have run: "threads cfg ! i = Running (MergeStart (fst (ranges ! i)) (snd (ranges ! i))) \<or>
      threads cfg ! i = Running (MergeLocked (?ups i))"
    by auto
  from run show ?thesis
  proof
    assume a: "threads cfg ! i = Running (MergeStart (fst (ranges ! i)) (snd (ranges ! i)))"
    have "snd (ranges ! i) \<le> length overlap" using rng i by simp
    then have r: "merge_overlapping_range tie area un overlap (fst (ranges ! i)) (snd (ranges ! i)) [] =
                  Some (?ups i)"
      using merge_overlapping_range_eq [of "snd (ranges ! i)" overlap tie area un "fst (ranges ! i)" "[]"]
      by simp
    have step: "thread_step ?W i cfg = cfg\<lparr>threads := (threads cfg)[i := Running (MergeLocked (?ups i))]\<rparr>"
      using True a r by (simp add: thread_step_def merge_worker_def)
    show ?thesis unfolding step merge_valid_def using wl nf len i
      by (auto simp: nth_list_update)
  next
    assume a: "threads cfg ! i = Running (MergeLocked (?ups i))"
    have "\<forall>item \<in> set (?ups i). fst item < length (water_polygons (shared cfg)) \<and> snd item \<noteq> []"
    proof
      fix item assume "item \<in> set (?ups i)"
      from reduce_records_items [OF this] set_chunk [of overlap "ranges ! i"] valid wl
      show "fst item < length (water_polygons (shared cfg)) \<and> snd item \<noteq> []" by force
    qed
    from merge_locked_Some [OF this, of union_pp] obtain sh' where
      sh': "merge_locked union_pp (?ups i) (shared cfg) = Some sh'"
      "length (water_polygons sh') = length (water_polygons (shared cfg))"
      by blast
    have step: "thread_step ?W i cfg = cfg\<lparr>threads := (threads cfg)[i := Completed], shared := sh'\<rparr>"
      using True a sh'(1) by (simp add: thread_step_def merge_worker_def)
    show ?thesis unfolding step merge_valid_def using wl nf len i sh'(2)
      by (auto simp: nth_list_update)
  qed
qed

lemma merge_valid_fold:
  fixes area :: "'p list \<Rightarrow> 'a::linorder"
    and cfg :: "('p merge_local, 'p merge_shared, 'e) pf_state"
  assumes rng: "\<forall>r \<in> set ranges. snd r \<le> length overlap"
    and valid: "\<forall>record \<in> set overlap. fst record < length water"
  shows "merge_inv tie area un union_pp overlap water ranges cfg \<Longrightarrow>
         merge_valid water (length ranges) cfg \<Longrightarrow>
         merge_valid water (length ranges)
           (fold (thread_step (merge_worker tie area un union_pp overlap)) sched cfg)"
proof (induction sched arbitrary: cfg)
  case Nil
  then show ?case by simp
next
  case (Cons i sched)
  from merge_inv_step [OF Cons.prems(1) rng]
  have 1: "merge_inv tie area un union_pp overlap water ranges
             (thread_step (merge_worker tie area un union_pp overlap) i cfg)" .
  from merge_valid_step [OF Cons.prems(1) rng valid Cons.prems(2)]
  have 2: "merge_valid water (length ranges)
             (thread_step (merge_worker tie area un union_pp overlap) i cfg)" .
  from Cons.IH [OF 1 2] show ?case by simp
qed

lemma merge_join_final:
  fixes area :: "'p list \<Rightarrow> 'a::linorder"
    and out :: "('p merge_shared, 'e) outcome"
  assumes rng: "\<forall>r \<in> set ranges. snd r \<le> length overlap"
    and cover: "concat (map (chunk overlap) ranges) = overlap"
    and valid: "\<forall>record \<in> set overlap. fst record < length water"
    and j: "join_threads (run_threads (merge_worker tie area un union_pp overlap) MergeStart sched ranges
              \<lparr>water_polygons = water, extra_polygons = []\<rparr>) = Some out"
  shows "\<exists>sh records. out = Returned sh \<and> mset records = mset overlap \<and>
           fold (merge_record tie area un union_pp) records (water, []) =
           (water_polygons sh, extra_polygons sh)"
proof -
  let ?W = "merge_worker tie area un union_pp overlap :: 'p merge_local \<Rightarrow> 'p merge_shared \<Rightarrow> ('p merge_local, 'e) wres \<times> 'p merge_shared"
  let ?init = "\<lparr>threads = map (\<lambda>(start, stop). Running (MergeStart start stop)) ranges,
                exception_ptr = None, shared = \<lparr>water_polygons = water, extra_polygons = []\<rparr>\<rparr>
               :: ('p merge_local, 'p merge_shared, 'e) pf_state"
  define cfg :: "('p merge_local, 'p merge_shared, 'e) pf_state" where
    "cfg = run_threads ?W MergeStart sched ranges \<lparr>water_polygons = water, extra_polygons = []\<rparr>"
  have inv: "merge_inv tie area un union_pp overlap water ranges cfg"
    unfolding cfg_def by (rule merge_inv_run [OF rng])
  have inv0: "merge_inv tie area un union_pp overlap water ranges ?init"
    using merge_inv_run [OF rng, of tie area un union_pp water "[]"] by (simp add: run_threads_def)
  have mv0: "merge_valid water (length ranges) ?init"
    by (simp add: merge_valid_def case_prod_beta)
  have mv: "merge_valid water (length ranges) cfg"
    unfolding cfg_def run_threads_def by (rule merge_valid_fold [OF rng valid inv0 mv0])
  from inv have len: "length (threads cfg) = length ranges" and ex: "exception_ptr cfg = None"
    and st: "\<forall>t<length ranges.
          threads cfg ! t = Running (MergeStart (fst (ranges ! t)) (snd (ranges ! t))) \<or>
          threads cfg ! t = Running (MergeLocked (reduce_records tie area un (chunk overlap (ranges ! t)))) \<or>
          threads cfg ! t = Completed \<or> threads cfg ! t = Faulted"
    by (simp_all add: merge_inv_def)
  from inv obtain order where ord: "distinct order"
    "set order = {t. t < length ranges \<and> threads cfg ! t = Completed}"
    "merge_locked union_pp (reduce_records tie area un (concat (map (\<lambda>t. chunk overlap (ranges ! t)) order)))
       \<lparr>water_polygons = water, extra_polygons = []\<rparr> = Some (shared cfg)"
    unfolding merge_inv_def by blast
  from mv have nf: "\<forall>t<length ranges. threads cfg ! t \<noteq> Faulted" by (simp add: merge_valid_def)
  from j have nr: "\<forall>x \<in> set (threads cfg). \<not> is_running x"
    by (auto simp: join_threads_def cfg_def [symmetric] list_ex_iff split: if_splits)
  have all: "\<forall>t<length ranges. threads cfg ! t = Completed"
  proof (intro allI impI)
    fix k assume k: "k < length ranges"
    then have "threads cfg ! k \<in> set (threads cfg)" using len by simp
    with nr have "\<not> is_running (threads cfg ! k)" by auto
    with st nf k show "threads cfg ! k = Completed" by (metis is_running.simps(1))
  qed
  have "Faulted \<notin> set (threads cfg)"
    using nf len by (auto simp: in_set_conv_nth)
  with j nr ex have out: "out = Returned (shared cfg)"
    by (auto simp: join_threads_def cfg_def [symmetric] list_ex_iff split: if_splits)
  from all have so: "set order = set [0..<length ranges]" using ord(2) by auto
  have perm: "mset order = mset [0..<length ranges]"
    using set_eq_iff_mset_eq_distinct [OF ord(1) distinct_upt, of 0 "length ranges"] so by blast
  define records where "records = concat (map (\<lambda>t. chunk overlap (ranges ! t)) order)"
  have e0: "mset records = mset (concat (map (\<lambda>t. chunk overlap (ranges ! t)) [0..<length ranges]))"
    unfolding records_def by (rule mset_concat_map_perm [OF perm])
  have e1: "map (\<lambda>t. chunk overlap (ranges ! t)) [0..<length ranges] = map (chunk overlap) ranges"
    by (rule nth_equalityI) simp_all
  have m: "mset records = mset overlap" using e0 e1 cover by simp
  from merge_locked_reduce [of union_pp tie area un records "\<lparr>water_polygons = water, extra_polygons = []\<rparr>" "shared cfg"]
    ord(3)
  have "fold (merge_record tie area un union_pp) records (water, []) =
        (water_polygons (shared cfg), extra_polygons (shared cfg))"
    by (simp add: records_def)
  with m out show ?thesis by blast
qed

lemma merge_parallel_for_final:
  fixes area :: "'p list \<Rightarrow> 'a::linorder"
    and out :: "('p merge_shared, 'e) outcome"
  assumes hw: "0 < hw"
    and valid: "\<forall>record \<in> set overlap. fst record < length water"
    and p: "parallel_for hw sched (merge_worker tie area un union_pp overlap) MergeStart
              (length overlap) 0 1 \<lparr>water_polygons = water, extra_polygons = []\<rparr> = Some out"
  shows "\<exists>sh records. out = Returned sh \<and> mset records = mset overlap \<and>
           fold (merge_record tie area un union_pp) records (water, []) =
           (water_polygons sh, extra_polygons sh)"
proof (cases "parallel_for_plan hw (length overlap) 0 1")
  case (Direct a b)
  let ?W = "merge_worker tie area un union_pp overlap :: 'p merge_local \<Rightarrow> 'p merge_shared \<Rightarrow> ('p merge_local, 'e) wres \<times> 'p merge_shared"
  let ?init = "\<lparr>water_polygons = water, extra_polygons = []\<rparr>"
  from parallel_for_plan_Direct [OF Direct] have ab: "a = 0" "b = length overlap" by simp_all
  from p Direct ab have "call_worker ?W (length sched) (MergeStart 0 (length overlap)) ?init = Some out"
    by (simp add: parallel_for_def)
  from call_worker_as_thread [OF this] obtain sched' where
    "join_threads (fold (thread_step ?W) sched'
       \<lparr>threads = [Running (MergeStart 0 (length overlap))], exception_ptr = None, shared = ?init\<rparr>) = Some out"
    by blast
  then have j: "join_threads (run_threads ?W MergeStart sched' [(0, length overlap)] ?init) = Some out"
    by (simp add: run_threads_def)
  show ?thesis
  proof (rule merge_join_final [OF _ _ valid j])
    show "\<forall>r \<in> set [(0, length overlap)]. snd r \<le> length overlap" by simp
    show "concat (map (chunk overlap) [(0, length overlap)]) = overlap" by (simp add: chunk_def)
  qed
next
  case (Spawn ranges)
  let ?n = "length overlap"
  from p Spawn have j: "join_threads (run_threads (merge_worker tie area un union_pp overlap) MergeStart
          sched ranges \<lparr>water_polygons = water, extra_polygons = []\<rparr>) = Some out"
    by (simp add: parallel_for_def)
  from parallel_for_plan_Spawn_shape [OF Spawn] obtain t where t: "0 < t"
    "ranges = map (\<lambda>i. (chunk_start (?n div t) (?n mod t) i, chunk_start (?n div t) (?n mod t) (Suc i))) [0..<t]"
    by blast
  have rng: "\<forall>r \<in> set ranges. snd r \<le> length overlap"
    using parallel_for_plan_Spawn_count [OF Spawn] by simp
  have "concat (map (chunk overlap) ranges) = take (chunk_start (?n div t) (?n mod t) t) overlap"
    unfolding t(2) using concat_chunk_take [of overlap "?n div t" "?n mod t" t] by (simp add: comp_def)
  also have "\<dots> = overlap" using chunk_start_total [OF t(1), of ?n] by simp
  finally have cover: "concat (map (chunk overlap) ranges) = overlap" .
  from merge_join_final [OF rng cover valid j] show ?thesis .
next
  case DivisionByZero
  with hw show ?thesis by (simp add: parallel_for_plan_def Let_def split: if_splits)
qed

lemma merge_worker_bounded:
  fixes area :: "'p list \<Rightarrow> 'a::linorder"
  assumes "merge_worker tie area un union_pp overlap l s = (Continue l', s')"
  shows "(case l' of MergeStart a b \<Rightarrow> Suc 0 | MergeLocked u \<Rightarrow> 0) <
         (case l of MergeStart a b \<Rightarrow> Suc 0 | MergeLocked u \<Rightarrow> 0)"
  using assms by (auto simp: merge_worker_def split: merge_local.splits option.splits)

text \<open>
  C3. When every record names a slot of the base collection and the number of hardware
  threads is not 0, \<^verbatim>\<open>merge_overlapping\<close> returns under every schedule that gives each
  worker its two actions (on the direct path: the caller's thread its two actions); and
  whenever it comes back, under any schedule, it returns normally and the new base
  collection is the one that the record-by-record merge of the specification gives for
  the records taken in some order: every record is processed once, the queued polygons
  are appended once at the end, and no slot other than those the records name is
  changed. With 0 hardware threads \<^verbatim>\<open>parallel_for\<close> divides by zero.
\<close>

theorem merge_overlapping_records:
  fixes area :: "'p list \<Rightarrow> 'a::linorder"
  assumes hw: "0 < hw"
    and valid: "\<forall>record \<in> set overlap. fst record < length water"
  shows "((\<forall>i<hw. 2 \<le> count_list sched i) \<longrightarrow>
            (\<exists>water'. merge_overlapping hw sched tie area un union_pp water overlap =
                         Some (Returned water' :: ('p list, 'e) outcome))) \<and>
         (\<forall>out :: ('p list, 'e) outcome.
            merge_overlapping hw sched tie area un union_pp water overlap = Some out \<longrightarrow>
            (\<exists>records water'. out = Returned water' \<and> mset records = mset overlap \<and>
               water' = merge_sequential tie area un union_pp records water \<and>
               length water \<le> length water' \<and>
               (\<forall>j<length water. j \<notin> fst ` set overlap \<longrightarrow> water' ! j = water ! j)))"
proof -
  let ?init = "\<lparr>water_polygons = water, extra_polygons = []\<rparr>"
  let ?W = "merge_worker tie area un union_pp overlap :: 'p merge_local \<Rightarrow> 'p merge_shared \<Rightarrow> ('p merge_local, 'e) wres \<times> 'p merge_shared"
  let ?m = "\<lambda>l :: 'p merge_local. case l of MergeStart a b \<Rightarrow> Suc 0 | MergeLocked u \<Rightarrow> 0"
  have safe: "\<exists>records water'. out = Returned water' \<and> mset records = mset overlap \<and>
               water' = merge_sequential tie area un union_pp records water \<and>
               length water \<le> length water' \<and>
               (\<forall>j<length water. j \<notin> fst ` set overlap \<longrightarrow> water' ! j = water ! j)"
    if m: "merge_overlapping hw sched tie area un union_pp water overlap = Some out"
    for out :: "('p list, 'e) outcome"
  proof -
    from m obtain o' where
      p: "parallel_for hw sched ?W MergeStart (length overlap) 0 1 ?init = Some o'"
      by (auto simp: merge_overlapping_def split: option.splits)
    from merge_parallel_for_final [OF hw valid p] obtain sh records where
      o': "o' = Returned sh" and r: "mset records = mset overlap"
      "fold (merge_record tie area un union_pp) records (water, []) =
           (water_polygons sh, extra_polygons sh)"
      by blast
    define water' where "water' = water_polygons sh @ extra_polygons sh"
    from m p o' have out: "out = Returned water'"
      by (simp add: merge_overlapping_def fold_append_polygons water'_def)
    from fold_merge_record_frame [OF r(2)] have fr: "length (water_polygons sh) = length water"
      "\<forall>j. j \<notin> fst ` set records \<longrightarrow> water_polygons sh ! j = water ! j"
      by auto
    have s: "set records = set overlap" using r(1) by (rule mset_eq_setD)
    have "water' = merge_sequential tie area un union_pp records water"
      using r(2) by (simp add: merge_sequential_def water'_def)
    moreover have "length water \<le> length water'" using fr(1) by (simp add: water'_def)
    moreover have "\<forall>j<length water. j \<notin> fst ` set overlap \<longrightarrow> water' ! j = water ! j"
      using fr s by (simp add: nth_append water'_def)
    ultimately show ?thesis using r(1) out by blast
  qed
  have live: "\<exists>water'. merge_overlapping hw sched tie area un union_pp water overlap =
                         Some (Returned water' :: ('p list, 'e) outcome)"
    if turns: "\<forall>i<hw. 2 \<le> count_list sched i"
  proof -
    have "\<exists>o'. parallel_for hw sched ?W MergeStart (length overlap) 0 1 ?init = Some o'"
    proof (rule parallel_for_ends [where m = ?m and k = 2])
      show "\<And>l s l' s'. ?W l s = (Continue l', s') \<Longrightarrow> ?m l' < ?m l"
        by (rule merge_worker_bounded)
      show "\<And>a b. a \<le> b \<Longrightarrow> b \<le> length overlap \<Longrightarrow> ?m (MergeStart a b) < 2" by simp
      show "0 < (if (0::nat) = 0 then hw else 0)" using hw by simp
      show "\<forall>i<(if (0::nat) = 0 then hw else 0). 2 \<le> count_list sched i" using turns by simp
    qed
    then obtain o' where "parallel_for hw sched ?W MergeStart (length overlap) 0 1 ?init = Some o'"
      by blast
    then obtain out :: "('p list, 'e) outcome" where
      "merge_overlapping hw sched tie area un union_pp water overlap = Some out"
      by (cases o') (simp_all add: merge_overlapping_def)
    with safe [OF this] show ?thesis by blast
  qed
  from safe live show ?thesis by blast
qed

theorem merge_overlapping_records_witness:
  "count_list [1, 1, 0, 0 :: nat] 0 = 2 \<and> count_list [1, 1, 0, 0 :: nat] 1 = 2 \<and>
   merge_overlapping 2 [1, 1, 0, 0] (\<lambda>q. 0) sum_list (\<lambda>a b. a @ b) (\<lambda>w p. [w + p])
     [10, 20, 30 :: nat] [(0, [1, 2]), (2, [5])] = Some (Returned [11, 20, 35, 2] :: (nat list, unit) outcome) \<and>
   (\<exists>records. mset records = mset [(0, [1, 2]), (2, [5 :: nat])] \<and>
      [11, 20, 35, 2] = merge_sequential (\<lambda>q. 0) sum_list (\<lambda>a b. a @ b) (\<lambda>w p. [w + p]) records [10, 20, 30] \<and>
      length [10, 20, 30 :: nat] \<le> length [11, 20, 35, 2 :: nat] \<and>
      [11, 20, 35, 2 :: nat] ! 1 = [10, 20, 30] ! 1) \<and>
   parallel_for_plan 1 (length [(0 :: nat, [1, 2 :: nat]), (2, [5])]) 0 1 = Direct 0 2 \<and>
   count_list [0, 0 :: nat] 0 = 2 \<and>
   merge_overlapping 1 [0, 0] (\<lambda>q. 0) sum_list (\<lambda>a b. a @ b) (\<lambda>w p. [w + p])
     [10, 20, 30 :: nat] [(0, [1, 2]), (2, [5])] = Some (Returned [11, 20, 35, 2] :: (nat list, unit) outcome)"
proof -
  have valid: "\<forall>record \<in> set [(0, [1, 2]), (2, [5 :: nat])]. fst record < length [10, 20, 30 :: nat]"
    by simp
  have turns: "\<forall>i<2. 2 \<le> count_list [1, 1, 0, 0 :: nat] i"
    by (simp add: less_Suc_eq numeral_2_eq_2)
  have hw: "0 < (2 :: nat)" by simp
  note t = merge_overlapping_records [where ?'e = unit, OF hw valid, of "[1, 1, 0, 0]" "\<lambda>q. 0" sum_list
      "\<lambda>a b. a @ b" "\<lambda>w p. [w + p]"]
  from t turns obtain water' where
    w: "merge_overlapping 2 [1, 1, 0, 0] (\<lambda>q. 0) sum_list (\<lambda>a b. a @ b) (\<lambda>w p. [w + p])
          [10, 20, 30 :: nat] [(0, [1, 2]), (2, [5])] = Some (Returned water' :: (nat list, unit) outcome)"
    by blast
  from t w obtain records where
    r: "mset records = mset [(0, [1, 2]), (2, [5 :: nat])]"
       "water' = merge_sequential (\<lambda>q. 0) sum_list (\<lambda>a b. a @ b) (\<lambda>w p. [w + p]) records [10, 20, 30]"
       "length [10, 20, 30 :: nat] \<le> length water'"
       "\<forall>j<length [10, 20, 30 :: nat]. j \<notin> fst ` set [(0, [1, 2]), (2, [5 :: nat])] \<longrightarrow>
           water' ! j = [10, 20, 30] ! j"
    by blast
  have h: "merge_overlapping 2 [1, 1, 0, 0] (\<lambda>q. 0) sum_list (\<lambda>a b. a @ b) (\<lambda>w p. [w + p])
     [10, 20, 30 :: nat] [(0, [1, 2]), (2, [5])] = Some (Returned [11, 20, 35, 2] :: (nat list, unit) outcome)"
    by code_simp
  with w have e: "water' = [11, 20, 35, 2]" by simp
  from r(4) have f: "water' ! 1 = [10, 20, 30] ! 1" by simp
  have hw1: "0 < (1 :: nat)" by simp
  have turns1: "\<forall>i<1. 2 \<le> count_list [0, 0 :: nat] i" by simp
  have p: "parallel_for_plan 1 (length [(0 :: nat, [1, 2 :: nat]), (2, [5])]) 0 1 = Direct 0 2"
    by (simp add: parallel_for_plan_def)
  from merge_overlapping_records [where ?'e = unit, OF hw1 valid, of "[0, 0]" "\<lambda>q. 0" sum_list
      "\<lambda>a b. a @ b" "\<lambda>w p. [w + p]"] turns1
  obtain water1 where
    w1: "merge_overlapping 1 [0, 0] (\<lambda>q. 0) sum_list (\<lambda>a b. a @ b) (\<lambda>w p. [w + p])
          [10, 20, 30 :: nat] [(0, [1, 2]), (2, [5])] = Some (Returned water1 :: (nat list, unit) outcome)"
    by blast
  have h1: "merge_overlapping 1 [0, 0] (\<lambda>q. 0) sum_list (\<lambda>a b. a @ b) (\<lambda>w p. [w + p])
     [10, 20, 30 :: nat] [(0, [1, 2]), (2, [5])] = Some (Returned [11, 20, 35, 2] :: (nat list, unit) outcome)"
    by code_simp
  from r(1,2,3) e f h h1 p show ?thesis by auto
qed

text \<open>
  C9. A record whose cascade union is empty is dropped by the inner
  \<^verbatim>\<open>merge_overlapping\<close>, so nothing is applied for it; and when the union of the base
  polygon with the first reduced element is empty, the loop body leaves the water
  polygons as they are and queues only the rest of the reduced list. For a single
  record the whole of \<^verbatim>\<open>merge_overlapping\<close> then returns the base unchanged, or the base
  followed by the rest of the reduced list.
\<close>

theorem merge_overlapping_empty_union:
  fixes area :: "'p list \<Rightarrow> 'a::linorder"
  shows "(ix < length overlap \<and> cascade_union tie area un (snd (overlap ! ix)) = Some [] \<longrightarrow>
            merge_overlapping_range tie area un overlap ix (Suc ix) result = Some result) \<and>
         (i < length (water_polygons sh) \<and> union_pp (water_polygons sh ! i) front = [] \<longrightarrow>
            merge_item union_pp (i, front # others) sh =
            Some (sh\<lparr>extra_polygons := extra_polygons sh @ others\<rparr>)) \<and>
         (2 \<le> length sched \<and> cascade_union tie area un matches = Some [] \<longrightarrow>
            merge_overlapping hw sched tie area un union_pp water [(i, matches)] =
            Some (Returned water :: ('p list, 'e) outcome)) \<and>
         (2 \<le> length sched \<and> cascade_union tie area un matches = Some (front # others) \<and>
          i < length water \<and> union_pp (water ! i) front = [] \<longrightarrow>
            merge_overlapping hw sched tie area un union_pp water [(i, matches)] =
            Some (Returned (water @ others) :: ('p list, 'e) outcome))"
proof (intro conjI impI)
  assume a: "ix < length overlap \<and> cascade_union tie area un (snd (overlap ! ix)) = Some []"
  have "merge_overlapping_range tie area un overlap (Suc ix) (Suc ix) result = Some result"
    by (subst merge_overlapping_range.simps) simp
  with a show "merge_overlapping_range tie area un overlap ix (Suc ix) result = Some result"
    by (subst merge_overlapping_range.simps) simp
next
  assume "i < length (water_polygons sh) \<and> union_pp (water_polygons sh ! i) front = []"
  then show "merge_item union_pp (i, front # others) sh =
            Some (sh\<lparr>extra_polygons := extra_polygons sh @ others\<rparr>)"
    by (simp add: merge_item_def)
next
  assume a: "2 \<le> length sched \<and> cascade_union tie area un matches = Some []"
  then obtain f where f: "length sched = Suc (Suc f)" by (cases "length sched"; cases "length sched - 1") auto
  have p: "parallel_for_plan hw (length [(i, matches)]) 0 1 = Direct 0 1"
    by (simp add: parallel_for_plan_def)
  have r: "merge_overlapping_range tie area un [(i, matches)] 0 (Suc 0) [] = Some []"
    using a merge_overlapping_range_eq [of "Suc 0" "[(i, matches)]" tie area un 0 "[]"]
    by (simp add: chunk_def reduce_records_def)
  show "merge_overlapping hw sched tie area un union_pp water [(i, matches)] =
            Some (Returned water :: ('p list, 'e) outcome)"
    unfolding merge_overlapping_def parallel_for_def p plan.case f
    by (simp add: merge_worker_def r)
next
  assume a: "2 \<le> length sched \<and> cascade_union tie area un matches = Some (front # others) \<and>
          i < length water \<and> union_pp (water ! i) front = []"
  then obtain f where f: "length sched = Suc (Suc f)" by (cases "length sched"; cases "length sched - 1") auto
  have p: "parallel_for_plan hw (length [(i, matches)]) 0 1 = Direct 0 1"
    by (simp add: parallel_for_plan_def)
  have r: "merge_overlapping_range tie area un [(i, matches)] 0 (Suc 0) [] = Some [(i, front # others)]"
    using a merge_overlapping_range_eq [of "Suc 0" "[(i, matches)]" tie area un 0 "[]"]
    by (simp add: chunk_def reduce_records_def)
  show "merge_overlapping hw sched tie area un union_pp water [(i, matches)] =
            Some (Returned (water @ others) :: ('p list, 'e) outcome)"
    unfolding merge_overlapping_def parallel_for_def p plan.case f
    using a by (simp add: merge_worker_def r merge_item_def fold_append_polygons)
qed

theorem merge_overlapping_empty_union_witness:
  "cascade_union (\<lambda>q. 0) sum_list (\<lambda>a b. []) [1, 2 :: nat] = Some [] \<and>
   merge_overlapping_range (\<lambda>q. 0) sum_list (\<lambda>a b. []) [(0, [1, 2 :: nat])] 0 (Suc 0) [] = Some [] \<and>
   merge_item (\<lambda>w p. []) (0, 1 # [2 :: nat]) \<lparr>water_polygons = [10, 20], extra_polygons = []\<rparr> =
     Some \<lparr>water_polygons = [10, 20], extra_polygons = [2]\<rparr> \<and>
   merge_overlapping 2 [0, 0] (\<lambda>q. 0) sum_list (\<lambda>a b. []) (\<lambda>w p. [w + p]) [10, 20] [(0, [1, 2 :: nat])] =
     Some (Returned [10, 20] :: (nat list, unit) outcome) \<and>
   cascade_union (\<lambda>q. 0) sum_list (\<lambda>a b. a @ b) [1, 2 :: nat] = Some [1, 2] \<and>
   merge_overlapping 2 [0, 0] (\<lambda>q. 0) sum_list (\<lambda>a b. a @ b) (\<lambda>w p. []) [10, 20] [(0, [1, 2 :: nat])] =
     Some (Returned [10, 20, 2] :: (nat list, unit) outcome)"
proof -
  have c1: "cascade_union (\<lambda>q. 0) sum_list (\<lambda>a b. []) [1, 2 :: nat] = Some []"
    by code_simp
  have c2: "cascade_union (\<lambda>q. 0) sum_list (\<lambda>a b. a @ b) [1, 2 :: nat] = Some [1, 2]"
    by code_simp
  from merge_overlapping_empty_union [where ?'e = unit, of 0 "[(0, [1, 2 :: nat])]" "\<lambda>q. 0" sum_list "\<lambda>a b. []" "[]"
      0 "\<lparr>water_polygons = [10, 20 :: nat], extra_polygons = []\<rparr>" "\<lambda>w p. []" 1 "[2]"
      "[0, 0]" "[1, 2]" 2 "[10, 20]"] c1
  have a: "merge_overlapping_range (\<lambda>q. 0) sum_list (\<lambda>a b. []) [(0, [1, 2 :: nat])] 0 (Suc 0) [] = Some []"
    and b: "merge_item (\<lambda>w p. []) (0, 1 # [2 :: nat]) \<lparr>water_polygons = [10, 20], extra_polygons = []\<rparr> =
     Some \<lparr>water_polygons = [10, 20], extra_polygons = [2]\<rparr>"
    by simp_all
  from merge_overlapping_empty_union [where ?'e = unit, of 0 "[(0, [1, 2 :: nat])]" "\<lambda>q. 0" sum_list "\<lambda>a b. []" "[]"
      0 "\<lparr>water_polygons = [10, 20 :: nat], extra_polygons = []\<rparr>" "\<lambda>w p. [w + p]" 1 "[2]"
      "[0, 0]" "[1, 2]" 2 "[10, 20]"] c1
  have c: "merge_overlapping 2 [0, 0] (\<lambda>q. 0) sum_list (\<lambda>a b. []) (\<lambda>w p. [w + p]) [10, 20] [(0, [1, 2 :: nat])] =
     Some (Returned [10, 20] :: (nat list, unit) outcome)"
    by simp
  from merge_overlapping_empty_union [where ?'e = unit, of 0 "[(0, [1, 2 :: nat])]" "\<lambda>q. 0" sum_list "\<lambda>a b. a @ b" "[]"
      0 "\<lparr>water_polygons = [10, 20 :: nat], extra_polygons = []\<rparr>" "\<lambda>w p. []" 1 "[2]"
      "[0, 0]" "[1, 2]" 2 "[10, 20]"] c2
  have d: "merge_overlapping 2 [0, 0] (\<lambda>q. 0) sum_list (\<lambda>a b. a @ b) (\<lambda>w p. []) [10, 20] [(0, [1, 2 :: nat])] =
     Some (Returned [10, 20, 2] :: (nat list, unit) outcome)"
    by simp
  from a b c d c1 c2 show ?thesis by simp
qed

section \<open>Overlap selector\<close>

lemma order_by_snoc:
  "order_by (xs @ [x]) S =
   (if x \<in> S \<and> x \<notin> set (order_by xs S) then order_by xs S @ [x] else order_by xs S)"
  by (simp add: order_by_def)

lemma order_by_Nil [simp]: "order_by [] S = []"
  by (simp add: order_by_def)

lemma set_order_by: "set (order_by xs S) = set xs \<inter> S"
  by (induction xs rule: rev_induct) (auto simp: order_by_snoc)

lemma order_by_insert_fresh: "x \<notin> set xs \<Longrightarrow> order_by xs (insert x S) = order_by xs S"
proof (induction xs rule: rev_induct)
  case Nil
  then show ?case by simp
next
  case (snoc y ys)
  then have "order_by ys (insert x S) = order_by ys S" and "y \<noteq> x" by auto
  then show ?case by (simp add: order_by_snoc)
qed

lemma order_by_restrict: "order_by xs (set xs \<inter> S) = order_by xs S"
proof -
  have "\<And>T. set ys \<inter> S \<subseteq> T \<Longrightarrow> T \<subseteq> S \<Longrightarrow> order_by ys T = order_by ys S" for ys
  proof (induction ys rule: rev_induct)
    case Nil
    then show ?case by simp
  next
    case (snoc y ys)
    from snoc.prems have "set ys \<inter> S \<subseteq> T" by auto
    from snoc.IH [OF this snoc.prems(2)] snoc.prems show ?case
      by (auto simp: order_by_snoc)
  qed
  from this [of xs "set xs \<inter> S"] show ?thesis by simp
qed

lemma local_ok_mono: "local_ok g water F l pre \<Longrightarrow> F \<subseteq> F' \<Longrightarrow> local_ok g water F' l pre"
  unfolding local_ok_def by blast

lemma running_ok_mono: "running_ok g water F l \<Longrightarrow> F \<subseteq> F' \<Longrightarrow> running_ok g water F' l"
  unfolding running_ok_def
  by (cases "l_pc l") (auto intro: local_ok_mono)

lemma thread_ok_mono: "thread_ok g water F th \<Longrightarrow> F \<subseteq> F' \<Longrightarrow> thread_ok g water F' th"
  by (cases th) (auto intro: running_ok_mono)

lemma index_done_mono: "index_done g water F i \<Longrightarrow> F \<subseteq> F' \<Longrightarrow> index_done g water F' i"
  unfolding index_done_def by blast

lemma upt_pending_mset: "i < j \<Longrightarrow> mset [i..<j] = {#i#} + mset [Suc i..<j]"
  by (simp add: upt_conv_Cons)

text \<open>
  One action of a worker, program point by program point: what it does to the worker's
  share of the invariant.
\<close>

lemma select_worker_AtOuter:
  fixes sh :: sel_shared and r :: "(sel_local, 'e) wres"
  assumes ok: "running_ok g water (sh_filtered_polygons sh) l"
    and pc: "l_pc l = AtOuter"
    and w: "select_worker g water l sh = (r, sh')"
  shows "sh' = sh \<and> thread_ok g water (sh_filtered_polygons sh) (thread_after r) \<and>
         claimed (thread_after r) = claimed (Running l :: (sel_local, 'e) thread) \<and>
         indices (thread_after r) \<subseteq># indices (Running l :: (sel_local, 'e) thread) \<and>
         pending (Running l :: (sel_local, 'e) thread) \<subseteq>
           pending (thread_after r) \<union> {i. index_done g water (sh_filtered_polygons sh) i}"
proof (cases "l_ix l < l_i1 l")
  case False
  with w pc have r: "r = Continue (l\<lparr>l_pc := AtPublish\<rparr>)" "sh' = sh"
    by (auto simp: select_worker_def)
  show ?thesis using ok pc False unfolding r
    by (auto simp: running_ok_def)
next
  case True
  with ok have lt: "l_ix l < length water" by (auto simp: running_ok_def)
  show ?thesis
  proof (cases "candidates g water (l_ix l) = []")
    case True
    with w pc lt \<open>l_ix l < l_i1 l\<close> have r: "r = Continue (l\<lparr>l_ix := Suc (l_ix l)\<rparr>)" "sh' = sh"
      by (auto simp: select_worker_def candidates_def Let_def)
    have d: "index_done g water (sh_filtered_polygons sh) (l_ix l)"
      using True by (simp add: index_done_def)
    have m: "mset [l_ix l..<l_i1 l] = {#l_ix l#} + mset [Suc (l_ix l)..<l_i1 l]"
      using \<open>l_ix l < l_i1 l\<close> by (rule upt_pending_mset)
    have p: "{l_ix l..<l_i1 l} \<subseteq> {Suc (l_ix l)..<l_i1 l} \<union> {i. index_done g water (sh_filtered_polygons sh) i}"
      using d by (auto simp: le_less Suc_le_eq)
    have k: "running_ok g water (sh_filtered_polygons sh) (l\<lparr>l_ix := Suc (l_ix l)\<rparr>)"
      using ok pc by (simp add: running_ok_def)
    show ?thesis unfolding r using k m p by simp
  next
    case False
    with w pc lt \<open>l_ix l < l_i1 l\<close>
    have r: "r = Continue (l\<lparr>l_pc := AtContains, l_area_polygons := candidates g water (l_ix l),
                             l_matching_areas := []\<rparr>)" "sh' = sh"
      by (auto simp: select_worker_def candidates_def Let_def)
    show ?thesis using ok pc \<open>l_ix l < l_i1 l\<close> unfolding r
      by (auto simp: running_ok_def local_ok_def)
  qed
qed

lemma step_ok_same_shared:
  fixes r :: "(sel_local, 'e) wres"
  assumes "finite (sh_filtered_polygons sh)"
    and "thread_ok g water (sh_filtered_polygons sh) (thread_after r)"
    and "claimed (thread_after r) = claimed (Running l :: (sel_local, 'e) thread)"
    and "indices (thread_after r) \<subseteq># indices (Running l :: (sel_local, 'e) thread)"
    and "pending (Running l :: (sel_local, 'e) thread) \<subseteq>
           pending (thread_after r) \<union> {i. index_done g water (sh_filtered_polygons sh) i}"
  shows "step_ok g water l sh r sh"
  unfolding step_ok_def using assms by simp

lemma select_worker_AtContains:
  fixes sh :: sel_shared and r :: "(sel_local, 'e) wres"
  assumes ok: "running_ok g water (sh_filtered_polygons sh) l"
    and pc: "l_pc l = AtContains"
    and w: "select_worker g water l sh = (r, sh')"
  shows "sh' = sh \<and> thread_ok g water (sh_filtered_polygons sh) (thread_after r) \<and>
         claimed (thread_after r) = claimed (Running l :: (sel_local, 'e) thread) \<and>
         indices (thread_after r) \<subseteq># indices (Running l :: (sel_local, 'e) thread) \<and>
         pending (Running l :: (sel_local, 'e) thread) \<subseteq>
           pending (thread_after r) \<union> {i. index_done g water (sh_filtered_polygons sh) i}"
proof -
  let ?F = "sh_filtered_polygons sh"
  from ok pc obtain pre where lt: "l_ix l < l_i1 l" and le: "l_i1 l \<le> length water"
    and c: "candidates g water (l_ix l) = pre @ l_area_polygons l"
    and lo: "local_ok g water ?F l pre" and res: "list_all (record_ok g water) (l_result l)"
    by (auto simp: running_ok_def)
  from lo have lo1: "\<forall>x \<in> set pre. qualifies g water (l_ix l) x \<longrightarrow> x \<in> ?F"
    and lo2: "\<forall>a \<in> set (l_matching_areas l). a \<in> set pre \<and> qualifies g water (l_ix l) a \<and> a \<in> ?F"
    and lo3: "l_matching_areas l = order_by pre (set (l_matching_areas l))"
    by (simp_all add: local_ok_def)
  show ?thesis
  proof (cases "l_area_polygons l")
    case Nil
    let ?res = "if l_matching_areas l \<noteq> [] then l_result l @ [(l_ix l, l_matching_areas l)] else l_result l"
    let ?l = "l\<lparr>l_pc := AtOuter, l_ix := Suc (l_ix l), l_matching_areas := [], l_result := ?res\<rparr>"
    from w pc Nil have r: "r = Continue ?l" "sh' = sh"
      by (auto simp: select_worker_def)
    from c Nil have cp: "candidates g water (l_ix l) = pre" by simp
    have rec: "l_matching_areas l \<noteq> [] \<Longrightarrow> record_ok g water (l_ix l, l_matching_areas l)"
      using lo2 lo3 cp lt le by (simp add: record_ok_def)
    have k: "running_ok g water ?F ?l"
      using res rec lt le by (simp add: running_ok_def)
    have d: "index_done g water ?F (l_ix l)"
      using lo1 cp by (simp add: index_done_def)
    have m: "mset [l_ix l..<l_i1 l] = {#l_ix l#} + mset [Suc (l_ix l)..<l_i1 l]"
      using lt by (rule upt_pending_mset)
    have p: "{l_ix l..<l_i1 l} \<subseteq> {Suc (l_ix l)..<l_i1 l} \<union> {i. index_done g water ?F i}"
      using d by (auto simp: le_less Suc_le_eq)
    show ?thesis unfolding r using k m p by simp
  next
    case (Cons item rest)
    show ?thesis
    proof (cases "item \<in> ?F")
      case True
      let ?l = "l\<lparr>l_area_polygons := rest\<rparr>"
      from w pc Cons True have r: "r = Continue ?l" "sh' = sh"
        by (auto simp: select_worker_def mps_contains_def)
      have c': "candidates g water (l_ix ?l) = (pre @ [item]) @ l_area_polygons ?l"
        using c Cons by simp
      have o: "order_by (pre @ [item]) (set (l_matching_areas l)) = l_matching_areas l"
        using lo3 by (simp add: order_by_snoc)
      have lo': "local_ok g water ?F ?l (pre @ [item])"
        unfolding local_ok_def using lo1 lo2 o True by auto
      have k: "running_ok g water ?F ?l"
        unfolding running_ok_def using res lt le pc c' lo' by auto
      show ?thesis unfolding r using k by simp
    next
      case False
      let ?l = "l\<lparr>l_pc := AtInsert, l_item := item, l_area_polygons := rest\<rparr>"
      from w pc Cons False have r: "r = Continue ?l" "sh' = sh"
        by (auto simp: select_worker_def mps_contains_def)
      have c': "candidates g water (l_ix ?l) = pre @ l_item ?l # l_area_polygons ?l"
        using c Cons by simp
      have lo': "local_ok g water ?F ?l pre"
        using lo by (simp add: local_ok_def)
      have k: "running_ok g water ?F ?l"
        unfolding running_ok_def using res lt le c' lo' by auto
      show ?thesis unfolding r using k by simp
    qed
  qed
qed

lemma select_worker_AtInsert:
  fixes sh :: sel_shared and r :: "(sel_local, 'e) wres"
  assumes ok: "running_ok g water (sh_filtered_polygons sh) l"
    and fin: "finite (sh_filtered_polygons sh)"
    and pc: "l_pc l = AtInsert"
    and w: "select_worker g water l sh = (r, sh')"
  shows "step_ok g water l sh r sh'"
proof -
  let ?F = "sh_filtered_polygons sh"
  let ?item = "l_item l"
  from ok pc obtain pre where lt: "l_ix l < l_i1 l" and le: "l_i1 l \<le> length water"
    and c: "candidates g water (l_ix l) = pre @ ?item # l_area_polygons l"
    and lo: "local_ok g water ?F l pre" and res: "list_all (record_ok g water) (l_result l)"
    by (auto simp: running_ok_def)
  from lo have lo1: "\<forall>x \<in> set pre. qualifies g water (l_ix l) x \<longrightarrow> x \<in> ?F"
    and lo2: "\<forall>a \<in> set (l_matching_areas l). a \<in> set pre \<and> qualifies g water (l_ix l) a \<and> a \<in> ?F"
    and lo3: "l_matching_areas l = order_by pre (set (l_matching_areas l))"
    by (simp_all add: local_ok_def)
  have c': "\<And>m. candidates g water (l_ix (l\<lparr>l_pc := AtContains, l_matching_areas := m\<rparr>)) =
                (pre @ [?item]) @ l_area_polygons (l\<lparr>l_pc := AtContains, l_matching_areas := m\<rparr>)"
    using c by simp
  show ?thesis
  proof (cases "qualifies g water (l_ix l) ?item \<and> ?item \<notin> ?F")
    case False
    let ?l = "l\<lparr>l_pc := AtContains\<rparr>"
    have r: "r = Continue ?l \<or> r = Continue (l\<lparr>l_pc := AtContains, l_matching_areas := l_matching_areas l\<rparr>)"
      and s: "sh_filtered_polygons sh' = ?F" "sh_result sh' = sh_result sh"
      using w pc False
      by (auto simp: select_worker_def mps_insert_def qualifies_def insert_absorb split: if_splits)
    then have r: "r = Continue ?l" by auto
    have q: "?item \<in> set (l_matching_areas l) \<Longrightarrow> ?item \<in> set (order_by pre (set (l_matching_areas l)))"
      using lo3 by simp
    have o: "order_by (pre @ [?item]) (set (l_matching_areas l)) = l_matching_areas l"
      using lo3 q by (simp add: order_by_snoc)
    have lo': "local_ok g water ?F ?l (pre @ [?item])"
      unfolding local_ok_def using lo1 lo2 o False by auto
    have k: "running_ok g water ?F ?l"
      unfolding running_ok_def using res lt le c' [of "l_matching_areas l"] lo' by auto
    show ?thesis unfolding step_ok_def r using k s fin by simp
  next
    case True
    let ?l = "l\<lparr>l_pc := AtContains, l_matching_areas := l_matching_areas l @ [?item]\<rparr>"
    let ?F' = "insert ?item ?F"
    have r: "r = Continue ?l"
      and s: "sh_filtered_polygons sh' = ?F'" "sh_result sh' = sh_result sh"
      using w pc True
      by (auto simp: select_worker_def mps_insert_def qualifies_def split: if_splits)
    from True lo1 have fresh: "?item \<notin> set pre" by auto
    from True lo2 have notm: "?item \<notin> set (l_matching_areas l)" by auto
    have "order_by pre (insert ?item (set (l_matching_areas l))) = l_matching_areas l"
      using order_by_insert_fresh [OF fresh] lo3 by simp
    then have o: "order_by (pre @ [?item]) (set (l_matching_areas ?l)) = l_matching_areas ?l"
      using notm by (simp add: order_by_snoc)
    have lo': "local_ok g water ?F' ?l (pre @ [?item])"
      unfolding local_ok_def using lo1 lo2 o True by auto
    have k: "running_ok g water ?F' ?l"
      unfolding running_ok_def using res lt le c' [of "l_matching_areas l @ [?item]"] lo' by auto
    have ms: "mset_set ?F' = mset_set ?F + {#?item#}"
      using fin True by simp
    show ?thesis unfolding step_ok_def r using k s fin ms by auto
  qed
qed

lemma select_worker_AtPublish:
  fixes sh :: sel_shared and r :: "(sel_local, 'e) wres"
  assumes ok: "running_ok g water (sh_filtered_polygons sh) l"
    and fin: "finite (sh_filtered_polygons sh)"
    and pc: "l_pc l = AtPublish"
    and w: "select_worker g water l sh = (r, sh')"
  shows "step_ok g water l sh r sh'"
proof -
  from w pc have r: "r = Done" "sh' = sh\<lparr>sh_result := sh_result sh @ l_result l\<rparr>"
    by (auto simp: select_worker_def)
  from ok pc have "l_matching_areas l = []" "l_i1 l \<le> l_ix l" "list_all (record_ok g water) (l_result l)"
    by (auto simp: running_ok_def)
  then show ?thesis unfolding step_ok_def r using fin by simp
qed

lemma select_worker_step_ok:
  fixes sh :: sel_shared and r :: "(sel_local, 'e) wres"
  assumes ok: "running_ok g water (sh_filtered_polygons sh) l"
    and fin: "finite (sh_filtered_polygons sh)"
    and w: "select_worker g water l sh = (r, sh')"
  shows "step_ok g water l sh r sh'"
proof (cases "l_pc l")
  case AtOuter
  note x = select_worker_AtOuter [OF ok AtOuter w]
  have "step_ok g water l sh r sh"
    by (rule step_ok_same_shared [OF fin x [THEN conjunct2, THEN conjunct1]
          x [THEN conjunct2, THEN conjunct2, THEN conjunct1]
          x [THEN conjunct2, THEN conjunct2, THEN conjunct2, THEN conjunct1]
          x [THEN conjunct2, THEN conjunct2, THEN conjunct2, THEN conjunct2]])
  then show ?thesis using x [THEN conjunct1] by simp
next
  case AtContains
  note x = select_worker_AtContains [OF ok AtContains w]
  have "step_ok g water l sh r sh"
    by (rule step_ok_same_shared [OF fin x [THEN conjunct2, THEN conjunct1]
          x [THEN conjunct2, THEN conjunct2, THEN conjunct1]
          x [THEN conjunct2, THEN conjunct2, THEN conjunct2, THEN conjunct1]
          x [THEN conjunct2, THEN conjunct2, THEN conjunct2, THEN conjunct2]])
  then show ?thesis using x [THEN conjunct1] by simp
next
  case AtInsert
  from select_worker_AtInsert [OF ok fin AtInsert w] show ?thesis .
next
  case AtPublish
  from select_worker_AtPublish [OF ok fin AtPublish w] show ?thesis .
qed

text \<open>
  The invariant holds at the start, for every partition of the index range into
  sub-ranges, and every action of every thread keeps it.
\<close>

lemma sel_inv_step:
  fixes cfg :: "(sel_local, sel_shared, 'e) pf_state"
  assumes inv: "sel_inv g water cfg"
  shows "sel_inv g water (thread_step (select_worker g water) i cfg)"
proof (cases "i < length (threads cfg) \<and> is_running (threads cfg ! i)")
  case False
  then show ?thesis using inv by (simp add: thread_step_not_running)
next
  case True
  then obtain l where i: "i < length (threads cfg)" and l: "threads cfg ! i = Running l"
    by (cases "threads cfg ! i") auto
  let ?W = "select_worker g water :: sel_local \<Rightarrow> sel_shared \<Rightarrow> (sel_local, 'e) wres \<times> sel_shared"
  let ?sh = "shared cfg"
  let ?F = "sh_filtered_polygons ?sh"
  let ?ts = "threads cfg"
  obtain r sh' where w: "?W l ?sh = (r, sh')" by (cases "?W l ?sh")
  let ?F' = "sh_filtered_polygons sh'"
  let ?ts' = "?ts[i := thread_after r]"
  from inv have fin: "finite ?F" and ex: "exception_ptr cfg = None"
    and rec: "list_all (record_ok g water) (sh_result ?sh)"
    and tok: "\<forall>th \<in> set ?ts. thread_ok g water ?F th"
    and cl: "mset (concat (map snd (sh_result ?sh))) + sum_list (map claimed ?ts) = mset_set ?F"
    and ind: "mset (map fst (sh_result ?sh)) + sum_list (map indices ?ts) \<subseteq># mset [0..<length water]"
    and pen: "\<forall>i<length water. index_done g water ?F i \<or> (\<exists>th \<in> set ?ts. i \<in> pending th)"
    by (simp_all add: sel_inv_def)
  from tok i l have "running_ok g water ?F l"
    by (metis nth_mem thread_ok.simps(1))
  from select_worker_step_ok [OF this fin w]
  have sub: "?F \<subseteq> ?F'" and fin': "finite ?F'"
    and tok': "thread_ok g water ?F' (thread_after r)"
    and cl': "mset (concat (map snd (sh_result sh'))) + claimed (thread_after r) + mset_set ?F =
              mset (concat (map snd (sh_result ?sh))) + claimed (Running l :: (sel_local, 'e) thread) + mset_set ?F'"
    and ind': "mset (map fst (sh_result sh')) + indices (thread_after r) \<subseteq>#
               mset (map fst (sh_result ?sh)) + indices (Running l :: (sel_local, 'e) thread)"
    and pen': "pending (Running l :: (sel_local, 'e) thread) \<subseteq>
               pending (thread_after r) \<union> {i. index_done g water ?F' i}"
    and rec': "list_all (record_ok g water) (sh_result sh')"
    using rec by (simp_all add: step_ok_def)
  have nr: "\<And>e. r \<noteq> Raise e" using tok' by (cases r) auto
  have step: "thread_step ?W i cfg = cfg\<lparr>threads := ?ts', shared := sh'\<rparr>"
    using thread_step_running [of i cfg l ?W r sh', OF i l w] nr ex by (cases r) auto
  \<comment> \<open>threads\<close>
  have t1: "\<forall>th \<in> set ?ts'. thread_ok g water ?F' th"
  proof
    fix th assume "th \<in> set ?ts'"
    then have "th = thread_after r \<or> th \<in> set ?ts"
      using set_update_subset_insert [of ?ts i "thread_after r"] by auto
    then show "thread_ok g water ?F' th"
      using tok' tok sub by (auto intro: thread_ok_mono)
  qed
  \<comment> \<open>claimed polygons\<close>
  have c1: "sum_list (map claimed ?ts') + claimed (Running l :: (sel_local, 'e) thread) =
            sum_list (map claimed ?ts) + claimed (thread_after r)"
    using sum_list_map_update [OF i, of claimed "thread_after r"] l by simp
  have "(mset (concat (map snd (sh_result sh'))) + sum_list (map claimed ?ts')) +
          (claimed (Running l :: (sel_local, 'e) thread) + mset_set ?F) =
        (mset (concat (map snd (sh_result sh'))) + claimed (thread_after r) + mset_set ?F) +
          sum_list (map claimed ?ts)"
    using c1 by (simp add: ac_simps)
  also have "\<dots> = (mset (concat (map snd (sh_result ?sh))) + sum_list (map claimed ?ts)) +
          (claimed (Running l :: (sel_local, 'e) thread) + mset_set ?F')"
    using cl' by (simp add: ac_simps)
  also have "\<dots> = mset_set ?F' + (claimed (Running l :: (sel_local, 'e) thread) + mset_set ?F)"
    using cl by (simp add: ac_simps)
  finally have t2: "mset (concat (map snd (sh_result sh'))) + sum_list (map claimed ?ts') = mset_set ?F'"
    by simp
  \<comment> \<open>indices\<close>
  have i1: "sum_list (map indices ?ts') + indices (Running l :: (sel_local, 'e) thread) =
            sum_list (map indices ?ts) + indices (thread_after r)"
    using sum_list_map_update [OF i, of indices "thread_after r"] l by simp
  have "(mset (map fst (sh_result sh')) + sum_list (map indices ?ts')) +
          indices (Running l :: (sel_local, 'e) thread) =
        (mset (map fst (sh_result sh')) + indices (thread_after r)) + sum_list (map indices ?ts)"
    using i1 by (simp add: ac_simps)
  also have "\<dots> \<subseteq># (mset (map fst (sh_result ?sh)) + indices (Running l :: (sel_local, 'e) thread)) +
          sum_list (map indices ?ts)"
    using ind' by (rule subset_mset.add_right_mono)
  also have "\<dots> = (mset (map fst (sh_result ?sh)) + sum_list (map indices ?ts)) +
          indices (Running l :: (sel_local, 'e) thread)"
    by (simp add: ac_simps)
  also have "\<dots> \<subseteq># mset [0..<length water] + indices (Running l :: (sel_local, 'e) thread)"
    using ind by (rule subset_mset.add_right_mono)
  finally have t3: "mset (map fst (sh_result sh')) + sum_list (map indices ?ts') \<subseteq>#
                    mset [0..<length water]"
    by simp
  \<comment> \<open>pending indices\<close>
  have t4: "\<forall>k<length water. index_done g water ?F' k \<or> (\<exists>th \<in> set ?ts'. k \<in> pending th)"
  proof (intro allI impI)
    fix k assume "k < length water"
    with pen have "index_done g water ?F k \<or> (\<exists>th \<in> set ?ts. k \<in> pending th)" by blast
    then show "index_done g water ?F' k \<or> (\<exists>th \<in> set ?ts'. k \<in> pending th)"
    proof
      assume "index_done g water ?F k"
      then show ?thesis using sub by (blast intro: index_done_mono)
    next
      assume "\<exists>th \<in> set ?ts. k \<in> pending th"
      then obtain j where j: "j < length ?ts" "k \<in> pending (?ts ! j)"
        by (auto simp: in_set_conv_nth)
      show ?thesis
      proof (cases "j = i")
        case True
        with j l pen' have "k \<in> pending (thread_after r) \<or> index_done g water ?F' k" by auto
        moreover have "thread_after r \<in> set ?ts'" using i by (rule set_update_memI)
        ultimately show ?thesis by blast
      next
        case False
        with j have "?ts' ! j = ?ts ! j" "j < length ?ts'" by simp_all
        then have "?ts ! j \<in> set ?ts'" by (metis nth_mem)
        with j show ?thesis by blast
      qed
    qed
  qed
  show ?thesis
    unfolding step sel_inv_def using fin' ex rec' t1 t2 t3 t4 by simp
qed

lemma sel_inv_fold:
  fixes cfg :: "(sel_local, sel_shared, 'e) pf_state"
  shows "sel_inv g water cfg \<Longrightarrow> sel_inv g water (fold (thread_step (select_worker g water)) sched cfg)"
  by (induction sched arbitrary: cfg) (simp_all add: sel_inv_step)

lemma sum_list_claimed_init:
  "sum_list (map claimed (map (\<lambda>(start, stop). Running (select_init start stop)) ranges)) = {#}"
  by (induction ranges) (auto simp: select_init_def)

lemma sum_list_indices_init:
  "sum_list (map indices (map (\<lambda>(start, stop). Running (select_init start stop)) ranges)) =
   mset (concat (map (\<lambda>(a, b). [a..<b]) ranges))"
  by (induction ranges) (auto simp: select_init_def)

lemma sel_inv_init:
  assumes part: "concat (map (\<lambda>(a, b). [a..<b]) ranges) = [0..<length water]"
  shows "sel_inv g water
           (\<lparr>threads = map (\<lambda>(start, stop). Running (select_init start stop)) ranges,
            exception_ptr = None,
            shared = \<lparr>sh_filtered_polygons = {}, sh_result = []\<rparr>\<rparr>
            :: (sel_local, sel_shared, 'e) pf_state)"
proof -
  have bound: "\<And>a b. (a, b) \<in> set ranges \<Longrightarrow> a < b \<Longrightarrow> b \<le> length water"
  proof -
    fix a b assume ab: "(a, b) \<in> set ranges" "a < b"
    then have "b - 1 \<in> set [a..<b]" by simp
    with ab(1) have "b - 1 \<in> set (concat (map (\<lambda>(a, b). [a..<b]) ranges))" by force
    with part ab(2) show "b \<le> length water" by simp
  qed
  have t: "\<forall>th \<in> set (map (\<lambda>(start, stop). Running (select_init start stop) :: (sel_local, 'e) thread) ranges).
             thread_ok g water {} th"
    using bound by (auto simp: running_ok_def select_init_def)
  have p: "\<forall>i<length water. \<exists>th \<in> set (map (\<lambda>(start, stop). Running (select_init start stop) :: (sel_local, 'e) thread) ranges).
             i \<in> pending th"
  proof (intro allI impI)
    fix i assume "i < length water"
    then have "i \<in> set (concat (map (\<lambda>(a, b). [a..<b]) ranges))" using part by simp
    then obtain a b where ab: "(a, b) \<in> set ranges" "a \<le> i" "i < b" by auto
    then have "(Running (select_init a b) :: (sel_local, 'e) thread) \<in>
               set (map (\<lambda>(start, stop). Running (select_init start stop)) ranges)"
      by force
    moreover have "i \<in> pending (Running (select_init a b) :: (sel_local, 'e) thread)"
      using ab by (simp add: select_init_def)
    ultimately show "\<exists>th \<in> set (map (\<lambda>(start, stop). Running (select_init start stop) :: (sel_local, 'e) thread) ranges).
             i \<in> pending th" by blast
  qed
  define ts :: "(sel_local, 'e) thread list" where
    "ts = map (\<lambda>(start, stop). Running (select_init start stop)) ranges"
  have c: "sum_list (map claimed ts) = {#}"
    unfolding ts_def by (rule sum_list_claimed_init)
  have i: "sum_list (map indices ts) = mset [0..<length water]"
    unfolding ts_def using sum_list_indices_init [of ranges] part by simp
  have "sel_inv g water \<lparr>threads = ts, exception_ptr = None,
          shared = \<lparr>sh_filtered_polygons = {}, sh_result = []\<rparr>\<rparr>"
    unfolding sel_inv_def using t p c i by (simp add: ts_def [symmetric])
  then show ?thesis by (simp add: ts_def)
qed

lemma distinct_of_mset_set:
  assumes "finite F" "mset xs = mset_set F"
  shows "distinct xs \<and> set xs = F"
proof -
  have "set xs = set_mset (mset xs)" by simp
  also have "\<dots> = F" using assms by simp
  finally have s: "set xs = F" .
  have "\<And>a. count (mset xs) a = (if a \<in> set xs then 1 else 0)"
    using assms s by (simp add: count_mset_set)
  then have "distinct xs" by (simp add: distinct_count_atmost_1)
  with s show ?thesis by simp
qed

lemma distinct_of_subset_upt:
  assumes "mset xs \<subseteq># mset [0..<n]"
  shows "distinct xs"
proof -
  have "\<And>a. count (mset xs) a = (if a \<in> set xs then 1 else 0)"
  proof -
    fix a
    have "count (mset xs) a \<le> count (mset [0..<n]) a"
      using assms by (rule mset_subset_eq_count)
    also have "\<dots> \<le> 1" using distinct_upt [of 0 n] by (simp add: distinct_count_atmost_1)
    finally have "count (mset xs) a \<le> 1" .
    moreover have "a \<in> set xs \<Longrightarrow> count (mset xs) a \<noteq> 0"
      by (simp add: count_eq_zero_iff)
    moreover have "a \<notin> set xs \<Longrightarrow> count (mset xs) a = 0" by (simp add: count_eq_zero_iff)
    ultimately show "count (mset xs) a = (if a \<in> set xs then 1 else 0)"
    proof (cases "a \<in> set xs")
      case True
      assume "count (mset xs) a \<le> 1" "a \<in> set xs \<Longrightarrow> count (mset xs) a \<noteq> 0"
      with True have "count (mset xs) a = 1" by arith
      with True show ?thesis by simp
    next
      case False
      assume "a \<notin> set xs \<Longrightarrow> count (mset xs) a = 0"
      with False show ?thesis by simp
    qed
  qed
  then show ?thesis by (simp add: distinct_count_atmost_1)
qed

lemma sel_join_final:
  fixes out :: "(sel_shared, 'e) outcome"
  assumes part: "concat (map (\<lambda>(a, b). [a..<b]) ranges) = [0..<length water]"
    and j: "join_threads (run_threads (select_worker g water) select_init sched ranges
              \<lparr>sh_filtered_polygons = {}, sh_result = []\<rparr>) = Some out"
  shows "\<exists>sh. out = Returned sh \<and> final_facts g water (sh_result sh)"
proof -
  define cfg :: "(sel_local, sel_shared, 'e) pf_state" where
    "cfg = run_threads (select_worker g water) select_init sched ranges
              \<lparr>sh_filtered_polygons = {}, sh_result = []\<rparr>"
  let ?F = "sh_filtered_polygons (shared cfg)"
  let ?r = "sh_result (shared cfg)"
  have inv: "sel_inv g water cfg"
    unfolding cfg_def run_threads_def by (rule sel_inv_fold [OF sel_inv_init [OF part]])
  then have fin: "finite ?F" and ex: "exception_ptr cfg = None"
    and rec: "list_all (record_ok g water) ?r"
    and tok: "\<forall>th \<in> set (threads cfg). thread_ok g water ?F th"
    and cl: "mset (concat (map snd ?r)) + sum_list (map claimed (threads cfg)) = mset_set ?F"
    and ind: "mset (map fst ?r) + sum_list (map indices (threads cfg)) \<subseteq># mset [0..<length water]"
    and pen: "\<forall>i<length water. index_done g water ?F i \<or> (\<exists>th \<in> set (threads cfg). i \<in> pending th)"
    by (simp_all add: sel_inv_def)
  from j have nr: "\<forall>th \<in> set (threads cfg). \<not> is_running th"
    by (auto simp: join_threads_def cfg_def [symmetric] list_ex_iff split: if_splits)
  have comp: "\<forall>th \<in> set (threads cfg). th = Completed"
  proof
    fix th assume "th \<in> set (threads cfg)"
    with nr tok show "th = Completed" by (cases th) auto
  qed
  then have nf: "\<not> list_ex (\<lambda>t. t = Faulted) (threads cfg)" by (auto simp: list_ex_iff)
  from j nr nf ex have out: "out = Returned (shared cfg)"
    by (auto simp: join_threads_def cfg_def [symmetric] list_ex_iff split: if_splits)
  have "sum_list (map claimed (threads cfg)) = {#}"
    using comp by (intro sum_list_all_zero [where 'y = "nat multiset", simplified]) auto
  with cl have c: "mset (concat (map snd ?r)) = mset_set ?F" by simp
  from distinct_of_mset_set [OF fin c] have d1: "distinct (concat (map snd ?r))"
    and F: "set (concat (map snd ?r)) = ?F" by simp_all
  have "sum_list (map indices (threads cfg)) = {#}"
    using comp by (intro sum_list_all_zero [where 'y = "nat multiset", simplified]) auto
  with ind have "mset (map fst ?r) \<subseteq># mset [0..<length water]" by simp
  then have d2: "distinct (map fst ?r)" by (rule distinct_of_subset_upt)
  have d3: "\<forall>i<length water. index_done g water ?F i"
    using pen comp by (metis pending.simps(2) empty_iff)
  show ?thesis
    using out d1 d2 rec d3 F by (simp add: final_facts_def)
qed

lemma select_parallel_for_final:
  fixes out :: "(sel_shared, 'e) outcome"
  assumes "parallel_for hw sched (select_worker g water) select_init (length water) num_threads 1
             \<lparr>sh_filtered_polygons = {}, sh_result = []\<rparr> = Some out"
  shows "(\<exists>sh. out = Returned sh \<and> final_facts g water (sh_result sh)) \<or>
         (out = Crash \<and> parallel_for_plan hw (length water) num_threads 1 = DivisionByZero)"
proof (cases "parallel_for_plan hw (length water) num_threads 1")
  case (Direct a b)
  from parallel_for_plan_Direct [OF Direct] have ab: "a = 0" "b = length water" by simp_all
  let ?W = "select_worker g water :: sel_local \<Rightarrow> sel_shared \<Rightarrow> (sel_local, 'e) wres \<times> sel_shared"
  let ?init = "\<lparr>sh_filtered_polygons = {}, sh_result = []\<rparr>"
  from assms Direct ab have "call_worker ?W (length sched) (select_init 0 (length water)) ?init = Some out"
    by (simp add: parallel_for_def)
  from call_worker_as_thread [OF this] obtain sched' where
    "join_threads (fold (thread_step ?W) sched'
       \<lparr>threads = [Running (select_init 0 (length water))], exception_ptr = None, shared = ?init\<rparr>) = Some out"
    by blast
  then have j: "join_threads (run_threads ?W select_init sched' [(0, length water)] ?init) = Some out"
    by (simp add: run_threads_def)
  have "concat (map (\<lambda>(a, b). [a..<b]) [(0, length water)]) = [0..<length water]" by simp
  from sel_join_final [OF this j] show ?thesis by blast
next
  case (Spawn ranges)
  from assms Spawn have j: "join_threads (run_threads (select_worker g water) select_init sched ranges
              \<lparr>sh_filtered_polygons = {}, sh_result = []\<rparr>) = Some out"
    by (simp add: parallel_for_def)
  from sel_join_final [OF parallel_for_plan_Spawn_partition [OF Spawn] j] show ?thesis by blast
next
  case DivisionByZero
  with assms show ?thesis by (simp add: parallel_for_def)
qed

lemma select_overlap_threads_final:
  fixes out :: "((nat \<times> nat list) list, 'e) outcome"
  assumes "select_overlap_threads num_threads hw sched g water = Some out"
  shows "(\<exists>r. out = Returned r \<and> final_facts g water r) \<or>
         (out = Crash \<and> parallel_for_plan hw (length water) num_threads 1 = DivisionByZero)"
proof -
  from assms obtain o' :: "(sel_shared, 'e) outcome" where
    p: "parallel_for hw sched (select_worker g water) select_init (length water) num_threads 1
             \<lparr>sh_filtered_polygons = {}, sh_result = []\<rparr> = Some o'"
    by (auto simp: select_overlap_threads_def split: option.splits)
  from select_parallel_for_final [OF p] assms p show ?thesis
    by (auto simp: select_overlap_threads_def)
qed

lemma select_overlap_ids_final:
  fixes out :: "((nat \<times> nat list) list, 'e) outcome"
  assumes "select_overlap_ids hw sched g water = Some out"
  shows "\<exists>r. out = Returned r \<and> final_facts g water r"
proof -
  have "parallel_for_plan hw (length water) 128 1 \<noteq> DivisionByZero"
    by (simp add: parallel_for_plan_def Let_def)
  with select_overlap_threads_final [of 128 hw sched g water out] assms show ?thesis
    by (auto simp: select_overlap_ids_def)
qed

text \<open>
  Run alone, the worker of the selection computes what \<open>select_overlap_range\<close>
  computes, and ends: the atomic actions are a faithful cut of the sequential function.
\<close>

lemma select_candidates_steps:
  fixes sh :: sel_shared
  shows "l_pc l = AtContains \<Longrightarrow> l_area_polygons l = cs \<Longrightarrow> l_matching_areas l = m \<Longrightarrow>
    sh_filtered_polygons sh = F \<Longrightarrow>
    select_candidates g (water ! l_ix l) cs (F, m) = (F', m') \<Longrightarrow>
    \<exists>k it. worker_steps (select_worker g water :: sel_local \<Rightarrow> sel_shared \<Rightarrow> (sel_local, 'e) wres \<times> sel_shared) k (l, sh) =
      Some (l\<lparr>l_area_polygons := [], l_item := it, l_matching_areas := m'\<rparr>,
            sh\<lparr>sh_filtered_polygons := F'\<rparr>)"
proof (induction cs arbitrary: l sh F m)
  case Nil
  then have "worker_steps (select_worker g water :: sel_local \<Rightarrow> sel_shared \<Rightarrow> (sel_local, 'e) wres \<times> sel_shared) 0 (l, sh) =
      Some (l\<lparr>l_area_polygons := [], l_item := l_item l, l_matching_areas := m'\<rparr>,
            sh\<lparr>sh_filtered_polygons := F'\<rparr>)"
    by simp
  then show ?case by blast
next
  case (Cons item rest)
  let ?W = "select_worker g water :: sel_local \<Rightarrow> sel_shared \<Rightarrow> (sel_local, 'e) wres \<times> sel_shared"
  note pc = Cons.prems(1) and ap = Cons.prems(2) and ma = Cons.prems(3) and fp = Cons.prems(4)
    and sc = Cons.prems(5)
  show ?case
  proof (cases "item \<in> F")
    case True
    let ?l1 = "l\<lparr>l_area_polygons := rest\<rparr>"
    have s1: "worker_steps ?W (Suc 0) (l, sh) = Some (?l1, sh)"
      using pc ap fp True by (simp add: select_worker_def mps_contains_def)
    have p1: "l_pc ?l1 = AtContains" using pc by simp
    have p2: "l_area_polygons ?l1 = rest" by simp
    have p3: "l_matching_areas ?l1 = m" using ma by simp
    have p5: "select_candidates g (water ! l_ix ?l1) rest (F, m) = (F', m')"
      using sc True by (simp add: mps_contains_def)
    from Cons.IH [OF p1 p2 p3 fp p5]
    obtain k it where "worker_steps ?W k (?l1, sh) =
        Some (?l1\<lparr>l_area_polygons := [], l_item := it, l_matching_areas := m'\<rparr>,
              sh\<lparr>sh_filtered_polygons := F'\<rparr>)"
      by blast
    from worker_steps_add [OF s1 this] show ?thesis
      by (simp del: worker_steps.simps) blast
  next
    case False
    let ?l1 = "l\<lparr>l_pc := AtInsert, l_item := item, l_area_polygons := rest\<rparr>"
    have s1: "worker_steps ?W (Suc 0) (l, sh) = Some (?l1, sh)"
      using pc ap fp False by (simp add: select_worker_def mps_contains_def)
    show ?thesis
    proof (cases "\<not> intersects g (water ! l_ix l) (deref g item) \<or> within g (deref g item) (water ! l_ix l)")
      case True
      let ?l2 = "l\<lparr>l_item := item, l_area_polygons := rest\<rparr>"
      have s2: "worker_steps ?W (Suc 0) (?l1, sh) = Some (?l2, sh)"
        using pc True by (simp add: select_worker_def)
      have p1: "l_pc ?l2 = AtContains" using pc by simp
      have p2: "l_area_polygons ?l2 = rest" by simp
      have p3: "l_matching_areas ?l2 = m" using ma by simp
      have p5: "select_candidates g (water ! l_ix ?l2) rest (F, m) = (F', m')"
        using sc True False by (simp add: mps_contains_def)
      from Cons.IH [OF p1 p2 p3 fp p5]
      obtain k it where "worker_steps ?W k (?l2, sh) =
          Some (?l2\<lparr>l_area_polygons := [], l_item := it, l_matching_areas := m'\<rparr>,
                sh\<lparr>sh_filtered_polygons := F'\<rparr>)"
        by blast
      from worker_steps_add [OF worker_steps_add [OF s1 s2] this] show ?thesis
        by (simp del: worker_steps.simps) blast
    next
      case q: False
      let ?l2 = "l\<lparr>l_item := item, l_area_polygons := rest, l_matching_areas := m @ [item]\<rparr>"
      let ?sh2 = "sh\<lparr>sh_filtered_polygons := insert item F\<rparr>"
      have s2: "worker_steps ?W (Suc 0) (?l1, sh) = Some (?l2, ?sh2)"
        using pc ma fp q False by (simp add: select_worker_def mps_insert_def)
      have p1: "l_pc ?l2 = AtContains" using pc by simp
      have p2: "l_area_polygons ?l2 = rest" by simp
      have p3: "l_matching_areas ?l2 = m @ [item]" by simp
      have p4: "sh_filtered_polygons ?sh2 = insert item F" by simp
      have p5: "select_candidates g (water ! l_ix ?l2) rest (insert item F, m @ [item]) = (F', m')"
        using sc q False by (simp add: mps_contains_def mps_insert_def)
      from Cons.IH [OF p1 p2 p3 p4 p5]
      obtain k it where "worker_steps ?W k (?l2, ?sh2) =
          Some (?l2\<lparr>l_area_polygons := [], l_item := it, l_matching_areas := m'\<rparr>,
                ?sh2\<lparr>sh_filtered_polygons := F'\<rparr>)"
        by blast
      from worker_steps_add [OF worker_steps_add [OF s1 s2] this] show ?thesis
        by (simp del: worker_steps.simps) blast
    qed
  qed
qed

lemma select_overlap_range_steps:
  fixes sh :: sel_shared
  shows "l_pc l = AtOuter \<Longrightarrow> l_ix l = ix \<Longrightarrow> l_i1 l = i1 \<Longrightarrow> l_result l = snd st \<Longrightarrow>
    sh_filtered_polygons sh = fst st \<Longrightarrow>
    select_overlap_range g water ix i1 st = Some (F', res') \<Longrightarrow>
    \<exists>k l'. worker_steps (select_worker g water :: sel_local \<Rightarrow> sel_shared \<Rightarrow> (sel_local, 'e) wres \<times> sel_shared) k (l, sh) =
      Some (l', sh\<lparr>sh_filtered_polygons := F'\<rparr>) \<and> l_pc l' = AtPublish \<and> l_result l' = res'"
proof (induction g water ix i1 st arbitrary: l sh rule: select_overlap_range.induct)
  case (1 g water ix i1 st)
  let ?W = "select_worker g water :: sel_local \<Rightarrow> sel_shared \<Rightarrow> (sel_local, 'e) wres \<times> sel_shared"
  note pc = "1.prems"(1) and lix = "1.prems"(2) and li1 = "1.prems"(3) and lres = "1.prems"(4)
    and shF = "1.prems"(5) and sor = "1.prems"(6)
  show ?case
  proof (cases "ix < i1")
    case False
    with sor have e: "F' = fst st" "res' = snd st"
      by (simp_all add: select_overlap_range.simps [of g water ix i1 st])
    have "worker_steps ?W (Suc 0) (l, sh) = Some (l\<lparr>l_pc := AtPublish\<rparr>, sh\<lparr>sh_filtered_polygons := F'\<rparr>)"
      using pc lix li1 False shF e by (simp add: select_worker_def)
    moreover have "l_pc (l\<lparr>l_pc := AtPublish\<rparr>) = AtPublish" "l_result (l\<lparr>l_pc := AtPublish\<rparr>) = res'"
      using lres e by simp_all
    ultimately show ?thesis by blast
  next
    case True
    with sor have ltw: "ix < length water"
      by (auto simp: select_overlap_range.simps [of g water ix i1 st] split: if_splits)
    let ?cands = "rtree_query g (envelope g (water ! ix))"
    show ?thesis
    proof (cases "?cands = []")
      case e: True
      let ?l1 = "l\<lparr>l_ix := Suc ix\<rparr>"
      have s1: "worker_steps ?W (Suc 0) (l, sh) = Some (?l1, sh)"
        using pc lix li1 True ltw e by (simp add: select_worker_def Let_def)
      have rec: "select_overlap_range g water (Suc ix) i1 st = Some (F', res')"
        using sor True ltw e by (simp add: select_overlap_range.simps [of g water ix i1 st] Let_def)
      have "\<exists>k l'. worker_steps ?W k (?l1, sh) = Some (l', sh\<lparr>sh_filtered_polygons := F'\<rparr>) \<and>
              l_pc l' = AtPublish \<and> l_result l' = res'"
        by (rule "1.IH"(1) [OF True ltw refl refl e _ _ _ _ shF rec]) (use pc li1 lres in simp_all)
      then obtain k l' where "worker_steps ?W k (?l1, sh) = Some (l', sh\<lparr>sh_filtered_polygons := F'\<rparr>)"
        "l_pc l' = AtPublish" "l_result l' = res'" by blast
      with worker_steps_add [OF s1 this(1)] show ?thesis by blast
    next
      case ne: False
      let ?l1 = "l\<lparr>l_pc := AtContains, l_area_polygons := ?cands, l_matching_areas := []\<rparr>"
      have s1: "worker_steps ?W (Suc 0) (l, sh) = Some (?l1, sh)"
        using pc lix li1 True ltw ne by (simp add: select_worker_def Let_def)
      obtain Fq mq where sc: "select_candidates g (water ! ix) ?cands (fst st, []) = (Fq, mq)"
        by (cases "select_candidates g (water ! ix) ?cands (fst st, [])")
      have "\<exists>k it. worker_steps ?W k (?l1, sh) =
              Some (?l1\<lparr>l_area_polygons := [], l_item := it, l_matching_areas := mq\<rparr>,
                    sh\<lparr>sh_filtered_polygons := Fq\<rparr>)"
        by (rule select_candidates_steps [where F = "fst st" and m = "[]" and cs = ?cands])
           (use lix shF sc in simp_all)
      then obtain k2 it where s2: "worker_steps ?W k2 (?l1, sh) =
              Some (?l1\<lparr>l_area_polygons := [], l_item := it, l_matching_areas := mq\<rparr>,
                    sh\<lparr>sh_filtered_polygons := Fq\<rparr>)" by blast
      let ?l2 = "?l1\<lparr>l_area_polygons := [], l_item := it, l_matching_areas := mq\<rparr>"
      let ?sh2 = "sh\<lparr>sh_filtered_polygons := Fq\<rparr>"
      let ?res = "if mq \<noteq> [] then snd st @ [(ix, mq)] else snd st"
      let ?l3 = "?l2\<lparr>l_pc := AtOuter, l_ix := Suc ix, l_matching_areas := [], l_result := ?res\<rparr>"
      have s3: "worker_steps ?W (Suc 0) (?l2, ?sh2) = Some (?l3, ?sh2)"
        using lix lres by (simp add: select_worker_def)
      have rec: "select_overlap_range g water (Suc ix) i1 (Fq, ?res) = Some (F', res')"
        using sor True ltw ne sc by (simp add: select_overlap_range.simps [of g water ix i1 st] Let_def)
      have "\<exists>k l'. worker_steps ?W k (?l3, ?sh2) = Some (l', ?sh2\<lparr>sh_filtered_polygons := F'\<rparr>) \<and>
              l_pc l' = AtPublish \<and> l_result l' = res'"
        by (rule "1.IH"(2) [OF True ltw refl refl ne sc [symmetric] _ _ _ _ _ rec]) (use li1 in simp_all)
      then obtain k4 l' where s4: "worker_steps ?W k4 (?l3, ?sh2) = Some (l', sh\<lparr>sh_filtered_polygons := F'\<rparr>)"
        and f: "l_pc l' = AtPublish" "l_result l' = res'" by auto
      from worker_steps_add [OF worker_steps_add [OF worker_steps_add [OF s1 s2] s3] s4] f
      show ?thesis by blast
    qed
  qed
qed

lemma select_overlap_range_Some:
  "i1 \<le> length water \<Longrightarrow> \<exists>st'. select_overlap_range g water ix i1 st = Some st'"
proof (induction g water ix i1 st rule: select_overlap_range.induct)
  case (1 g water ix i1 st)
  show ?case
  proof (cases "ix < i1")
    case False
    then show ?thesis by (simp add: select_overlap_range.simps [of g water ix i1 st])
  next
    case True
    with "1.prems" have ltw: "ix < length water" by simp
    let ?cands = "rtree_query g (envelope g (water ! ix))"
    show ?thesis
    proof (cases "?cands = []")
      case e: True
      from "1.IH"(1) [OF True ltw refl refl e "1.prems"] show ?thesis
        using True ltw e by (simp add: select_overlap_range.simps [of g water ix i1 st] Let_def)
    next
      case ne: False
      obtain Fq mq where sc: "select_candidates g (water ! ix) ?cands (fst st, []) = (Fq, mq)"
        by (cases "select_candidates g (water ! ix) ?cands (fst st, [])")
      from "1.IH"(2) [OF True ltw refl refl ne sc [symmetric] "1.prems"] show ?thesis
        using True ltw ne sc by (simp add: select_overlap_range.simps [of g water ix i1 st] Let_def)
    qed
  qed
qed

lemma select_worker_sequential:
  fixes R :: "(nat \<times> nat list) list"
  assumes "select_overlap_range g water i0 i1 (F, []) = Some (F', res)"
  shows "\<exists>k. \<forall>fuel. call_worker (select_worker g water) (k + fuel) (select_init i0 i1)
              \<lparr>sh_filtered_polygons = F, sh_result = R\<rparr> =
            Some (Returned \<lparr>sh_filtered_polygons = F', sh_result = R @ res\<rparr> :: (sel_shared, 'e) outcome)"
proof -
  let ?W = "select_worker g water :: sel_local \<Rightarrow> sel_shared \<Rightarrow> (sel_local, 'e) wres \<times> sel_shared"
  let ?sh = "\<lparr>sh_filtered_polygons = F, sh_result = R\<rparr>"
  have "\<exists>k l'. worker_steps ?W k (select_init i0 i1, ?sh) = Some (l', ?sh\<lparr>sh_filtered_polygons := F'\<rparr>) \<and>
          l_pc l' = AtPublish \<and> l_result l' = res"
    by (rule select_overlap_range_steps [where st = "(F, [])" and ix = i0 and ?i1.0 = i1])
       (use assms in \<open>simp_all add: select_init_def\<close>)
  then obtain k l' where k: "worker_steps ?W k (select_init i0 i1, ?sh) = Some (l', ?sh\<lparr>sh_filtered_polygons := F'\<rparr>)"
    and l': "l_pc l' = AtPublish" "l_result l' = res" by blast
  have "\<forall>fuel. call_worker ?W (Suc k + fuel) (select_init i0 i1) ?sh =
          Some (Returned \<lparr>sh_filtered_polygons = F', sh_result = R @ res\<rparr>)"
  proof
    fix fuel
    have "call_worker ?W (k + Suc fuel) (select_init i0 i1) ?sh =
          call_worker ?W (Suc fuel) l' (?sh\<lparr>sh_filtered_polygons := F'\<rparr>)"
      by (rule worker_steps_call [OF k])
    also have "\<dots> = Some (Returned \<lparr>sh_filtered_polygons = F', sh_result = R @ res\<rparr>)"
      using l' by (simp add: select_worker_def)
    finally show "call_worker ?W (Suc k + fuel) (select_init i0 i1) ?sh =
          Some (Returned \<lparr>sh_filtered_polygons = F', sh_result = R @ res\<rparr>)" by simp
  qed
  then show ?thesis by blast
qed

text \<open>
  Progress of the selection: every continuing action of a worker decreases
  \<open>select_measure\<close>, so that \<^verbatim>\<open>select_overlap\<close> returns under every schedule that
  gives each worker \<open>select_turns\<close> turns. At the end the set of claimed polygons holds
  exactly the polygons of the match lists.
\<close>

lemma candidate_work_step:
  "a < b \<Longrightarrow> candidate_work g water a b =
     2 * length (candidates g water a) + 2 + candidate_work g water (Suc a) b"
  by (simp add: candidate_work_def upt_conv_Cons)

lemma candidate_work_append:
  "a \<le> b \<Longrightarrow> b \<le> c \<Longrightarrow>
   candidate_work g water a c = candidate_work g water a b + candidate_work g water b c"
proof -
  assume ab: "a \<le> b" and bc: "b \<le> c"
  from upt_add_eq_append [OF ab, of "c - b"] bc have "[a..<c] = [a..<b] @ [b..<c]" by simp
  then show ?thesis by (simp add: candidate_work_def)
qed

lemma candidate_work_le:
  assumes "a \<le> b" "b \<le> n"
  shows "candidate_work g water a b \<le> candidate_work g water 0 n"
proof -
  have "candidate_work g water 0 n = candidate_work g water 0 a + candidate_work g water a n"
    using assms by (intro candidate_work_append) simp_all
  also have "candidate_work g water a n = candidate_work g water a b + candidate_work g water b n"
    using assms by (intro candidate_work_append)
  finally show ?thesis by simp
qed

lemma select_init_measure:
  "a \<le> b \<Longrightarrow> b \<le> length water \<Longrightarrow> select_measure g water (select_init a b) < select_turns g water"
  using candidate_work_le [of a b "length water" g water]
  by (simp add: select_measure_def select_init_def select_turns_def)

lemma select_worker_bounded:
  fixes sh :: sel_shared
  assumes "select_worker g water l sh = (Continue l' :: (sel_local, 'e) wres, sh')"
  shows "select_measure g water l' < select_measure g water l"
proof (cases "l_pc l")
  case AtOuter
  show ?thesis
  proof (cases "l_ix l < l_i1 l")
    case True
    from candidate_work_step [OF True, of g water]
    have cw: "candidate_work g water (l_ix l) (l_i1 l) =
        2 * length (rtree_query g (envelope g (water ! l_ix l))) + 2 +
        candidate_work g water (Suc (l_ix l)) (l_i1 l)"
      by (simp add: candidates_def)
    from assms AtOuter True show ?thesis
      by (auto simp: select_worker_def select_measure_def Let_def cw split: if_splits)
  next
    case False
    with assms AtOuter show ?thesis
      by (auto simp: select_worker_def select_measure_def)
  qed
next
  case AtContains
  with assms show ?thesis
    by (auto simp: select_worker_def select_measure_def split: list.splits if_splits)
next
  case AtInsert
  with assms show ?thesis
    by (auto simp: select_worker_def select_measure_def mps_insert_def split: if_splits)
next
  case AtPublish
  with assms show ?thesis by (simp add: select_worker_def)
qed

lemma sel_join_claims:
  fixes out :: "(sel_shared, 'e) outcome"
  assumes part: "concat (map (\<lambda>(a, b). [a..<b]) ranges) = [0..<length water]"
    and j: "join_threads (run_threads (select_worker g water) select_init sched ranges
              \<lparr>sh_filtered_polygons = {}, sh_result = []\<rparr>) = Some (Returned sh :: (sel_shared, 'e) outcome)"
  shows "sh_filtered_polygons sh = set (concat (map snd (sh_result sh)))"
proof -
  define cfg :: "(sel_local, sel_shared, 'e) pf_state" where
    "cfg = run_threads (select_worker g water) select_init sched ranges
              \<lparr>sh_filtered_polygons = {}, sh_result = []\<rparr>"
  let ?F = "sh_filtered_polygons (shared cfg)"
  let ?r = "sh_result (shared cfg)"
  have inv: "sel_inv g water cfg"
    unfolding cfg_def run_threads_def by (rule sel_inv_fold [OF sel_inv_init [OF part]])
  then have fin: "finite ?F"
    and tok: "\<forall>th \<in> set (threads cfg). thread_ok g water ?F th"
    and cl: "mset (concat (map snd ?r)) + sum_list (map claimed (threads cfg)) = mset_set ?F"
    by (simp_all add: sel_inv_def)
  from j have nr: "\<forall>th \<in> set (threads cfg). \<not> is_running th" and sh: "shared cfg = sh"
    by (auto simp: join_threads_def cfg_def [symmetric] list_ex_iff split: if_splits option.splits)
  have comp: "\<forall>th \<in> set (threads cfg). th = Completed"
  proof
    fix th assume "th \<in> set (threads cfg)"
    with nr tok show "th = Completed" by (cases th) auto
  qed
  have "sum_list (map claimed (threads cfg)) = {#}"
    using comp by (intro sum_list_all_zero [where 'y = "nat multiset", simplified]) auto
  with cl have c: "mset (concat (map snd ?r)) = mset_set ?F" by simp
  from distinct_of_mset_set [OF fin c] sh show ?thesis by simp
qed

lemma select_parallel_for_claims:
  assumes "parallel_for hw sched (select_worker g water) select_init (length water) num_threads 1
             \<lparr>sh_filtered_polygons = {}, sh_result = []\<rparr> = Some (Returned sh :: (sel_shared, 'e) outcome)"
  shows "sh_filtered_polygons sh = set (concat (map snd (sh_result sh)))"
proof (cases "parallel_for_plan hw (length water) num_threads 1")
  case (Direct a b)
  from parallel_for_plan_Direct [OF Direct] have ab: "a = 0" "b = length water" by simp_all
  let ?W = "select_worker g water :: sel_local \<Rightarrow> sel_shared \<Rightarrow> (sel_local, 'e) wres \<times> sel_shared"
  let ?init = "\<lparr>sh_filtered_polygons = {}, sh_result = []\<rparr>"
  from assms Direct ab have "call_worker ?W (length sched) (select_init 0 (length water)) ?init =
      Some (Returned sh)"
    by (simp add: parallel_for_def)
  from call_worker_as_thread [OF this] obtain sched' where
    "join_threads (fold (thread_step ?W) sched'
       \<lparr>threads = [Running (select_init 0 (length water))], exception_ptr = None, shared = ?init\<rparr>) =
     Some (Returned sh)"
    by blast
  then have j: "join_threads (run_threads ?W select_init sched' [(0, length water)] ?init) =
      Some (Returned sh)"
    by (simp add: run_threads_def)
  have "concat (map (\<lambda>(a, b). [a..<b]) [(0, length water)]) = [0..<length water]" by simp
  from sel_join_claims [OF this j] show ?thesis .
next
  case (Spawn ranges)
  from assms Spawn have j: "join_threads (run_threads (select_worker g water) select_init sched ranges
              \<lparr>sh_filtered_polygons = {}, sh_result = []\<rparr>) = Some (Returned sh :: (sel_shared, 'e) outcome)"
    by (simp add: parallel_for_def)
  from sel_join_claims [OF parallel_for_plan_Spawn_partition [OF Spawn] j] show ?thesis .
next
  case DivisionByZero
  with assms show ?thesis by (simp add: parallel_for_def)
qed

lemma select_overlap_threads_ends:
  assumes nz: "0 < (if num_threads = 0 then hw else num_threads)"
    and turns: "\<forall>i<(if num_threads = 0 then hw else num_threads). select_turns g water \<le> count_list sched i"
  shows "\<exists>r. select_overlap_threads num_threads hw sched g water =
           Some (Returned r :: ((nat \<times> nat list) list, 'e) outcome)"
proof -
  let ?W = "select_worker g water :: sel_local \<Rightarrow> sel_shared \<Rightarrow> (sel_local, 'e) wres \<times> sel_shared"
  have "\<exists>out. parallel_for hw sched ?W select_init (length water) num_threads 1
          \<lparr>sh_filtered_polygons = {}, sh_result = []\<rparr> = Some out"
  proof (rule parallel_for_ends [where m = "select_measure g water" and k = "select_turns g water"])
    show "\<And>l s l' s'. ?W l s = (Continue l', s') \<Longrightarrow> select_measure g water l' < select_measure g water l"
      by (rule select_worker_bounded)
    show "\<And>a b. a \<le> b \<Longrightarrow> b \<le> length water \<Longrightarrow>
            select_measure g water (select_init a b) < select_turns g water"
      by (rule select_init_measure)
    show "0 < (if num_threads = 0 then hw else num_threads)" by (rule nz)
    show "\<forall>i<(if num_threads = 0 then hw else num_threads). select_turns g water \<le> count_list sched i"
      by (rule turns)
  qed
  then obtain o' where "parallel_for hw sched ?W select_init (length water) num_threads 1
          \<lparr>sh_filtered_polygons = {}, sh_result = []\<rparr> = Some o'" by blast
  then have "\<exists>out :: ((nat \<times> nat list) list, 'e) outcome.
      select_overlap_threads num_threads hw sched g water = Some out"
    by (cases o') (simp_all add: select_overlap_threads_def)
  then obtain out :: "((nat \<times> nat list) list, 'e) outcome" where
    o: "select_overlap_threads num_threads hw sched g water = Some out" by blast
  have "parallel_for_plan hw (length water) num_threads 1 \<noteq> DivisionByZero"
    using nz by (auto simp: parallel_for_plan_def Let_def)
  with select_overlap_threads_final [OF o] o show ?thesis by blast
qed

lemma select_overlap_ids_ends:
  assumes "\<forall>i<128. select_turns g water \<le> count_list sched i"
  shows "\<exists>r. select_overlap_ids hw sched g water =
           Some (Returned r :: ((nat \<times> nat list) list, 'e) outcome)"
  unfolding select_overlap_ids_def
  using select_overlap_threads_ends [of 128 hw g water sched] assms by simp

lemma final_facts_sound:
  assumes "final_facts g water r" "(i, ms) \<in> set r" "a \<in> set ms"
  shows "i < length water \<and> a \<in> set (rtree_query g (envelope g (water ! i))) \<and>
         intersects g (water ! i) (deref g a) \<and> \<not> within g (deref g a) (water ! i)"
proof -
  from assms(1,2) have "record_ok g water (i, ms)"
    by (auto simp: final_facts_def list_all_iff)
  with assms(3) show ?thesis
    by (auto simp: record_ok_def candidates_def qualifies_def)
qed

lemma final_facts_complete:
  assumes "final_facts g water r" "i < length water"
    "a \<in> set (rtree_query g (envelope g (water ! i)))"
    "intersects g (water ! i) (deref g a)" "\<not> within g (deref g a) (water ! i)"
  shows "\<exists>(j, ms) \<in> set r. a \<in> set ms"
proof -
  from assms(1,2) have "index_done g water (set (concat (map snd r))) i"
    by (simp add: final_facts_def)
  with assms(3,4,5) have "a \<in> set (concat (map snd r))"
    by (auto simp: index_done_def candidates_def qualifies_def)
  then show ?thesis by auto
qed

lemma final_facts_expected:
  assumes ff: "final_facts g water r" and un: "unambiguous g water"
  shows "set r = expected_records g water"
proof -
  from ff have d1: "distinct (concat (map snd r))" and d2: "distinct (map fst r)"
    and ok: "\<And>rec. rec \<in> set r \<Longrightarrow> record_ok g water rec"
    and dn: "\<And>i. i < length water \<Longrightarrow> index_done g water (set (concat (map snd r))) i"
    by (auto simp: final_facts_def list_all_iff)
  have owner: "\<exists>ms. (i, ms) \<in> set r \<and> a \<in> set ms"
    if "i < length water" "a \<in> set (candidates g water i)" "qualifies g water i a" for i a
  proof -
    from dn [OF that(1)] that(2,3) have "a \<in> set (concat (map snd r))"
      by (auto simp: index_done_def)
    then obtain j ms where jm: "(j, ms) \<in> set r" "a \<in> set ms" by auto
    from ok [OF jm(1)] jm(2) have "j < length water" "a \<in> set (candidates g water j)"
      "qualifies g water j a" by (auto simp: record_ok_def)
    with un that have "i = j" unfolding unambiguous_def by blast
    with jm show ?thesis by blast
  qed
  have exact: "ms = order_by (candidates g water i) {a. qualifies g water i a}"
    if rec: "(i, ms) \<in> set r" for i ms
  proof -
    from ok [OF rec] have i: "i < length water"
      and sub: "\<forall>a \<in> set ms. a \<in> set (candidates g water i) \<and> qualifies g water i a"
      and ord: "ms = order_by (candidates g water i) (set ms)"
      by (auto simp: record_ok_def)
    have "set ms = set (candidates g water i) \<inter> {a. qualifies g water i a}"
    proof (intro equalityI subsetI)
      fix a assume "a \<in> set ms"
      with sub show "a \<in> set (candidates g water i) \<inter> {a. qualifies g water i a}" by blast
    next
      fix a assume "a \<in> set (candidates g water i) \<inter> {a. qualifies g water i a}"
      with owner [OF i, of a] obtain ms' where m': "(i, ms') \<in> set r" "a \<in> set ms'" by auto
      from d2 rec m'(1) have "ms' = ms" by (meson eq_key_imp_eq_value)
      with m'(2) show "a \<in> set ms" by simp
    qed
    with ord show ?thesis by (simp add: order_by_restrict)
  qed
  show ?thesis
  proof (intro equalityI subsetI)
    fix rec assume rec: "rec \<in> set r"
    obtain i ms where e: "rec = (i, ms)" by (cases rec)
    from ok [OF rec] e have "i < length water" "ms \<noteq> []" by (auto simp: record_ok_def)
    with exact [of i ms] rec e show "rec \<in> expected_records g water"
      by (auto simp: expected_records_def)
  next
    fix rec assume "rec \<in> expected_records g water"
    then obtain i where i: "i < length water"
      "rec = (i, order_by (candidates g water i) {a. qualifies g water i a})"
      "order_by (candidates g water i) {a. qualifies g water i a} \<noteq> []"
      by (auto simp: expected_records_def)
    from i(3) obtain a where "a \<in> set (order_by (candidates g water i) {a. qualifies g water i a})"
      by (cases "order_by (candidates g water i) {a. qualifies g water i a}") auto
    then have "a \<in> set (candidates g water i)" "qualifies g water i a"
      by (auto simp: set_order_by)
    from owner [OF i(1) this] obtain ms where ms: "(i, ms) \<in> set r" by blast
    with exact [OF ms] i(2) show "rec \<in> set r" by simp
  qed
qed

text \<open>
  A run of the source's instance, with 128 threads, on two water polygons and two
  overlay polygons, each overlay polygon intersecting one water polygon.
\<close>

lemma example_run:
  "select_overlap_threads 128 8 (concat (replicate 8 [1, 0]) @ concat (map (\<lambda>t. [t, t]) [2..<128]))
     \<lparr>envelope = (\<lambda>p. p), rtree_query = (\<lambda>b. [0, 1]), deref = (\<lambda>k. k + 100),
      intersects = (\<lambda>w a. a \<noteq> 100 + w), within = (\<lambda>a w. False)\<rparr> [0, 1 :: nat] =
   Some (Returned [(1, [0]), (0, [1])] :: ((nat \<times> nat list) list, unit) outcome)"
  by code_simp

text \<open>
  C1. Whenever \<^verbatim>\<open>select_overlap\<close> returns, for every number of threads and under every
  schedule of the workers, no overlay polygon, identified by its address, occurs twice
  in the match lists of the returned records: neither in two records nor twice in one.
\<close>

theorem select_overlap_claims_unique:
  fixes r :: "(nat \<times> nat list) list"
  assumes "select_overlap_threads num_threads hw sched g water = Some (Returned r :: (_, 'e) outcome)"
  shows "distinct (concat (map snd r))"
  using select_overlap_threads_final [OF assms] by (simp add: final_facts_def)

theorem select_overlap_claims_unique_witness:
  "select_overlap_ids 8 (concat (replicate 8 [1, 0]) @ concat (map (\<lambda>t. [t, t]) [2..<128]))
     \<lparr>envelope = (\<lambda>p. p), rtree_query = (\<lambda>b. [0, 1]), deref = (\<lambda>k. k + 100),
      intersects = (\<lambda>w a. a \<noteq> 100 + w), within = (\<lambda>a w. False)\<rparr> [0, 1 :: nat] =
   Some (Returned [(1, [0]), (0, [1])] :: ((nat \<times> nat list) list, unit) outcome) \<and>
   distinct (concat (map snd [(1 :: nat, [0 :: nat]), (0, [1])]))"
  using select_overlap_claims_unique [OF example_run] example_run
  by (simp add: select_overlap_ids_def)

text \<open>
  C4 (amended). For a candidate that the \<^verbatim>\<open>contains\<close> test finds claimed, the worker
  goes on to the next candidate. For one it finds unclaimed, the next action of the worker
  skips it, leaving the set of claimed polygons as it is, when it does not intersect the
  base polygon or lies within it; otherwise the action inserts it into the set, and
  appends it to the match list of the base polygon if the insertion succeeds, that is,
  if no other worker has claimed it since the test. For the selection as a whole:
  it returns under every schedule that gives each worker \<open>select_turns\<close> turns; and
  whenever it returns, under any schedule, the claimed polygons are exactly those of
  the returned match lists, each of them in one list; every polygon in the record of a
  base polygon is a candidate of that base polygon which intersects it and is not within
  it, so that a polygon within a base polygon is never in the record of that base
  polygon, and a polygon within every base polygon that it intersects is in no record;
  and every candidate of a base polygon that intersects it without lying within it is in
  some record.
\<close>

theorem select_overlap_candidates:
  fixes g :: "('p, 'b) geom"
  shows "(\<forall>l sh item rest. l_pc l = AtContains \<and> l_area_polygons l = item # rest \<longrightarrow>
            select_worker g water l sh =
              (if item \<in> sh_filtered_polygons sh
               then (Continue (l\<lparr>l_area_polygons := rest\<rparr>) :: (sel_local, 'e) wres, sh)
               else (Continue (l\<lparr>l_pc := AtInsert, l_item := item, l_area_polygons := rest\<rparr>), sh))) \<and>
         (\<forall>l sh. l_pc l = AtInsert \<longrightarrow>
            select_worker g water l sh =
              (if \<not> intersects g (water ! l_ix l) (deref g (l_item l)) \<or>
                  within g (deref g (l_item l)) (water ! l_ix l)
               then (Continue (l\<lparr>l_pc := AtContains\<rparr>) :: (sel_local, 'e) wres, sh)
               else (Continue (l\<lparr>l_pc := AtContains,
                                 l_matching_areas :=
                                   (if l_item l \<in> sh_filtered_polygons sh then l_matching_areas l
                                    else l_matching_areas l @ [l_item l])\<rparr>),
                     sh\<lparr>sh_filtered_polygons := insert (l_item l) (sh_filtered_polygons sh)\<rparr>))) \<and>
         (0 < (if num_threads = 0 then hw else num_threads) \<and>
          (\<forall>i<(if num_threads = 0 then hw else num_threads). select_turns g water \<le> count_list sched i) \<longrightarrow>
            (\<exists>r. select_overlap_threads num_threads hw sched g water =
                    Some (Returned r :: ((nat \<times> nat list) list, 'e) outcome))) \<and>
         (\<forall>sh. parallel_for hw sched (select_worker g water) select_init (length water) num_threads 1
                  \<lparr>sh_filtered_polygons = {}, sh_result = []\<rparr> =
                Some (Returned sh :: (sel_shared, 'e) outcome) \<longrightarrow>
               sh_filtered_polygons sh = set (concat (map snd (sh_result sh)))) \<and>
         (\<forall>r. select_overlap_threads num_threads hw sched g water =
                 Some (Returned r :: ((nat \<times> nat list) list, 'e) outcome) \<longrightarrow>
               distinct (concat (map snd r)) \<and>
               (\<forall>(i, ms) \<in> set r. i < length water \<and>
                  (\<forall>a \<in> set ms. a \<in> set (rtree_query g (envelope g (water ! i))) \<and>
                                 intersects g (water ! i) (deref g a) \<and>
                                 \<not> within g (deref g a) (water ! i))) \<and>
               (\<forall>i<length water. \<forall>a \<in> set (rtree_query g (envelope g (water ! i))).
                  intersects g (water ! i) (deref g a) \<and> \<not> within g (deref g a) (water ! i) \<longrightarrow>
                  (\<exists>(j, ms) \<in> set r. a \<in> set ms)) \<and>
               (\<forall>a. (\<forall>j<length water. intersects g (water ! j) (deref g a) \<longrightarrow>
                                        within g (deref g a) (water ! j)) \<longrightarrow>
                    a \<notin> set (concat (map snd r))))"
proof (intro conjI allI impI)
  fix l :: sel_local and sh :: sel_shared and item rest
  assume "l_pc l = AtContains \<and> l_area_polygons l = item # rest"
  then show "select_worker g water l sh =
              (if item \<in> sh_filtered_polygons sh
               then (Continue (l\<lparr>l_area_polygons := rest\<rparr>) :: (sel_local, 'e) wres, sh)
               else (Continue (l\<lparr>l_pc := AtInsert, l_item := item, l_area_polygons := rest\<rparr>), sh))"
    by (simp add: select_worker_def mps_contains_def)
next
  fix l :: sel_local and sh :: sel_shared
  assume "l_pc l = AtInsert"
  then show "select_worker g water l sh =
              (if \<not> intersects g (water ! l_ix l) (deref g (l_item l)) \<or>
                  within g (deref g (l_item l)) (water ! l_ix l)
               then (Continue (l\<lparr>l_pc := AtContains\<rparr>) :: (sel_local, 'e) wres, sh)
               else (Continue (l\<lparr>l_pc := AtContains,
                                 l_matching_areas :=
                                   (if l_item l \<in> sh_filtered_polygons sh then l_matching_areas l
                                    else l_matching_areas l @ [l_item l])\<rparr>),
                     sh\<lparr>sh_filtered_polygons := insert (l_item l) (sh_filtered_polygons sh)\<rparr>))"
    by (simp add: select_worker_def mps_insert_def)
next
  assume "0 < (if num_threads = 0 then hw else num_threads) \<and>
          (\<forall>i<(if num_threads = 0 then hw else num_threads). select_turns g water \<le> count_list sched i)"
  then show "\<exists>r. select_overlap_threads num_threads hw sched g water =
                    Some (Returned r :: ((nat \<times> nat list) list, 'e) outcome)"
    using select_overlap_threads_ends [of num_threads hw g water sched] by blast
next
  fix sh
  assume "parallel_for hw sched (select_worker g water) select_init (length water) num_threads 1
                  \<lparr>sh_filtered_polygons = {}, sh_result = []\<rparr> =
                Some (Returned sh :: (sel_shared, 'e) outcome)"
  then show "sh_filtered_polygons sh = set (concat (map snd (sh_result sh)))"
    by (rule select_parallel_for_claims)
next
  fix r
  assume a: "select_overlap_threads num_threads hw sched g water =
                 Some (Returned r :: ((nat \<times> nat list) list, 'e) outcome)"
  from select_overlap_threads_final [OF a] have ff: "final_facts g water r" by simp
  then show "distinct (concat (map snd r))" by (simp add: final_facts_def)
next
  fix r
  assume a: "select_overlap_threads num_threads hw sched g water =
                 Some (Returned r :: ((nat \<times> nat list) list, 'e) outcome)"
  from select_overlap_threads_final [OF a] have ff: "final_facts g water r" by simp
  show "\<forall>(i, ms) \<in> set r. i < length water \<and>
            (\<forall>a \<in> set ms. a \<in> set (rtree_query g (envelope g (water ! i))) \<and>
                           intersects g (water ! i) (deref g a) \<and>
                           \<not> within g (deref g a) (water ! i))"
  proof (intro ballI, clarify)
    fix i ms assume rec: "(i, ms) \<in> set r"
    from ff have "record_ok g water (i, ms)" using rec
      by (auto simp: final_facts_def list_all_iff)
    then have "i < length water" by (simp add: record_ok_def)
    with final_facts_sound [OF ff rec]
    show "i < length water \<and>
            (\<forall>a \<in> set ms. a \<in> set (rtree_query g (envelope g (water ! i))) \<and>
                           intersects g (water ! i) (deref g a) \<and>
                           \<not> within g (deref g a) (water ! i))"
      by blast
  qed
next
  fix r i
  assume a: "select_overlap_threads num_threads hw sched g water =
                 Some (Returned r :: ((nat \<times> nat list) list, 'e) outcome)"
    and i: "i < length water"
  from select_overlap_threads_final [OF a] have ff: "final_facts g water r" by simp
  show "\<forall>a \<in> set (rtree_query g (envelope g (water ! i))).
            intersects g (water ! i) (deref g a) \<and> \<not> within g (deref g a) (water ! i) \<longrightarrow>
            (\<exists>(j, ms) \<in> set r. a \<in> set ms)"
    using final_facts_complete [OF ff i] by blast
next
  fix r a
  assume a: "select_overlap_threads num_threads hw sched g water =
                 Some (Returned r :: ((nat \<times> nat list) list, 'e) outcome)"
    and w: "\<forall>j<length water. intersects g (water ! j) (deref g a) \<longrightarrow> within g (deref g a) (water ! j)"
  from select_overlap_threads_final [OF a] have ff: "final_facts g water r" by simp
  show "a \<notin> set (concat (map snd r))"
  proof
    assume "a \<in> set (concat (map snd r))"
    then obtain j ms where "(j, ms) \<in> set r" "a \<in> set ms" by auto
    from final_facts_sound [OF ff this] w show False by blast
  qed
qed

theorem select_overlap_candidates_witness:
  "select_turns \<lparr>envelope = (\<lambda>p. p), rtree_query = (\<lambda>b. [0, 1]), deref = (\<lambda>k. k),
      intersects = (\<lambda>w a. True), within = (\<lambda>a w. a = 1 \<and> w = 0)\<rparr> [0, 1 :: nat] = 14 \<and>
   count_list (concat (replicate 14 [0, 1 :: nat])) 0 = 14 \<and>
   count_list (concat (replicate 14 [0, 1 :: nat])) 1 = 14 \<and>
   select_overlap_threads 2 8 (concat (replicate 14 [0, 1]))
     \<lparr>envelope = (\<lambda>p. p), rtree_query = (\<lambda>b. [0, 1]), deref = (\<lambda>k. k),
      intersects = (\<lambda>w a. True), within = (\<lambda>a w. a = 1 \<and> w = 0)\<rparr> [0, 1 :: nat] =
   Some (Returned [(0, [0]), (1, [1])] :: ((nat \<times> nat list) list, unit) outcome) \<and>
   distinct (concat (map snd [(0 :: nat, [0 :: nat]), (1, [1])])) \<and>
   (\<exists>(j, ms) \<in> set [(0 :: nat, [0 :: nat]), (1, [1])]. 0 \<in> set ms) \<and>
   (\<exists>(j, ms) \<in> set [(0 :: nat, [0 :: nat]), (1, [1])]. 1 \<in> set ms) \<and>
   parallel_for_plan 8 (length [0, 1 :: nat]) 1 1 = Direct 0 2 \<and>
   count_list (replicate 14 (0 :: nat)) 0 = 14 \<and>
   (\<exists>r. select_overlap_threads 1 8 (replicate 14 0)
     \<lparr>envelope = (\<lambda>p. p), rtree_query = (\<lambda>b. [0, 1]), deref = (\<lambda>k. k),
      intersects = (\<lambda>w a. True), within = (\<lambda>a w. a = 1 \<and> w = 0)\<rparr> [0, 1 :: nat] =
   Some (Returned r :: ((nat \<times> nat list) list, unit) outcome) \<and>
     distinct (concat (map snd r)) \<and> (\<exists>(j, ms) \<in> set r. 1 \<in> set ms))"
proof -
  let ?g = "\<lparr>envelope = (\<lambda>p :: nat. p), rtree_query = (\<lambda>b. [0, 1 :: nat]), deref = (\<lambda>k. k),
      intersects = (\<lambda>w a. True), within = (\<lambda>a w. a = (1 :: nat) \<and> w = (0 :: nat))\<rparr>"
  let ?s = "concat (replicate 14 [0, 1 :: nat])"
  have t: "select_turns ?g [0, 1 :: nat] = 14" by code_simp
  have c: "count_list ?s 0 = 14" "count_list ?s 1 = 14" by code_simp+
  have turns: "\<forall>i<(if (2 :: nat) = 0 then 8 else 2). select_turns ?g [0, 1 :: nat] \<le> count_list ?s i"
    using t c by (simp add: less_Suc_eq numeral_2_eq_2)
  have run: "select_overlap_threads 2 8 ?s ?g [0, 1 :: nat] =
      Some (Returned [(0, [0]), (1, [1])] :: ((nat \<times> nat list) list, unit) outcome)"
    by code_simp
  note th = select_overlap_candidates [where ?'e = unit, of ?g "[0, 1]" 2 8 ?s]
  from th turns obtain r where
    r: "select_overlap_threads 2 8 ?s ?g [0, 1 :: nat] =
          Some (Returned r :: ((nat \<times> nat list) list, unit) outcome)"
    by auto
  with run have e: "r = [(0, [0]), (1, [1])]" by simp
  from th r have d: "distinct (concat (map snd r))"
    and f: "\<forall>i<length [0, 1 :: nat]. \<forall>a \<in> set (rtree_query ?g (envelope ?g ([0, 1] ! i))).
            intersects ?g ([0, 1] ! i) (deref ?g a) \<and> \<not> within ?g (deref ?g a) ([0, 1] ! i) \<longrightarrow>
            (\<exists>(j, ms) \<in> set r. a \<in> set ms)"
    by blast+
  from f have m: "\<exists>(j, ms) \<in> set r. 0 \<in> set ms" "\<exists>(j, ms) \<in> set r. 1 \<in> set ms"
    by (simp_all add: less_Suc_eq)
  have p: "parallel_for_plan 8 (length [0, 1 :: nat]) 1 1 = Direct 0 2"
    by (simp add: parallel_for_plan_def)
  have c1: "count_list (replicate 14 (0 :: nat)) 0 = 14" by code_simp
  have turns1: "\<forall>i<(if (1 :: nat) = 0 then 8 else 1).
      select_turns ?g [0, 1 :: nat] \<le> count_list (replicate 14 (0 :: nat)) i"
    using t c1 by simp
  note th1 = select_overlap_candidates [where ?'e = unit, of ?g "[0, 1]" 1 8 "replicate 14 0"]
  from th1 turns1 obtain r1 where
    r1: "select_overlap_threads 1 8 (replicate 14 0) ?g [0, 1 :: nat] =
          Some (Returned r1 :: ((nat \<times> nat list) list, unit) outcome)"
    by auto
  from th1 r1 have d1: "distinct (concat (map snd r1))"
    and f1: "\<forall>i<length [0, 1 :: nat]. \<forall>a \<in> set (rtree_query ?g (envelope ?g ([0, 1] ! i))).
            intersects ?g ([0, 1] ! i) (deref ?g a) \<and> \<not> within ?g (deref ?g a) ([0, 1] ! i) \<longrightarrow>
            (\<exists>(j, ms) \<in> set r1. a \<in> set ms)"
    by blast+
  from f1 have m1: "\<exists>(j, ms) \<in> set r1. 1 \<in> set ms"
    by (simp add: less_Suc_eq)
  from r1 d1 m1 have direct: "\<exists>r. select_overlap_threads 1 8 (replicate 14 0) ?g [0, 1 :: nat] =
      Some (Returned r :: ((nat \<times> nat list) list, unit) outcome) \<and>
      distinct (concat (map snd r)) \<and> (\<exists>(j, ms) \<in> set r. 1 \<in> set ms)"
    by blast
  from t c run d e m p c1 direct show ?thesis by simp
qed

text \<open>
  C4 as stated fails: an overlay polygon within one base polygon is claimed by another
  base polygon that it intersects without lying within it. Here the overlay polygon at
  address 0 is within the base polygon 0, and the record of the base polygon 1 holds
  it.
\<close>

theorem select_overlap_containment_counterexample:
  "within \<lparr>envelope = (\<lambda>p. p), rtree_query = (\<lambda>b. [0]), deref = (\<lambda>k. 7),
      intersects = (\<lambda>w a. True), within = (\<lambda>a w. w = 0)\<rparr>
     (deref \<lparr>envelope = (\<lambda>p. p), rtree_query = (\<lambda>b. [0]), deref = (\<lambda>k. 7),
      intersects = (\<lambda>w a. True), within = (\<lambda>a w. w = 0)\<rparr> 0) ([0, 1 :: nat] ! 0) \<and>
   select_overlap_ids 8 (replicate 6 0 @ replicate 6 1 @ concat (map (\<lambda>t. [t, t]) [2..<128]))
     \<lparr>envelope = (\<lambda>p. p), rtree_query = (\<lambda>b. [0]), deref = (\<lambda>k. 7),
      intersects = (\<lambda>w a. True), within = (\<lambda>a w. w = 0)\<rparr> [0, 1 :: nat] =
   Some (Returned [(1, [0])] :: ((nat \<times> nat list) list, unit) outcome) \<and>
   select_overlap 8 (replicate 6 0 @ replicate 6 1 @ concat (map (\<lambda>t. [t, t]) [2..<128]))
     \<lparr>envelope = (\<lambda>p. p), rtree_query = (\<lambda>b. [0]), deref = (\<lambda>k. 7),
      intersects = (\<lambda>w a. True), within = (\<lambda>a w. w = 0)\<rparr> [0, 1 :: nat] =
   Some (Returned [(1, [7 :: nat])] :: ((nat \<times> nat list) list, unit) outcome)"
  by code_simp

text \<open>
  C7. When no overlay polygon is a qualifying candidate (true intersection, no
  containment) of two different base polygons, a run of the selection with thread count
  1 and a run with any thread count \<open>N\<close>, under any schedules, return the same set of
  records.
\<close>

theorem select_overlap_thread_count:
  fixes r1 rN :: "(nat \<times> nat list) list"
  assumes "\<forall>i<length water. \<forall>j<length water. \<forall>a.
             a \<in> set (rtree_query g (envelope g (water ! i))) \<and>
             intersects g (water ! i) (deref g a) \<and> \<not> within g (deref g a) (water ! i) \<and>
             a \<in> set (rtree_query g (envelope g (water ! j))) \<and>
             intersects g (water ! j) (deref g a) \<and> \<not> within g (deref g a) (water ! j) \<longrightarrow> i = j"
    and "select_overlap_threads 1 hw1 sched1 g water = Some (Returned r1 :: (_, 'e) outcome)"
    and "select_overlap_threads N hwN schedN g water = Some (Returned rN :: (_, 'e) outcome)"
  shows "set r1 = set rN"
proof -
  have un: "unambiguous g water"
    unfolding unambiguous_def candidates_def qualifies_def using assms(1) by blast
  from select_overlap_threads_final [OF assms(2)] have "final_facts g water r1" by simp
  moreover from select_overlap_threads_final [OF assms(3)] have "final_facts g water rN" by simp
  ultimately show ?thesis using final_facts_expected un by blast
qed

theorem select_overlap_thread_count_witness:
  "select_overlap_threads 1 8 (replicate 20 0)
     \<lparr>envelope = (\<lambda>p. p), rtree_query = (\<lambda>b. [0, 1]), deref = (\<lambda>k. k + 100),
      intersects = (\<lambda>w a. a \<noteq> 100 + w), within = (\<lambda>a w. False)\<rparr> [0, 1 :: nat] =
   Some (Returned [(0, [1]), (1, [0])] :: ((nat \<times> nat list) list, unit) outcome) \<and>
   select_overlap_threads 128 8 (concat (replicate 8 [1, 0]) @ concat (map (\<lambda>t. [t, t]) [2..<128]))
     \<lparr>envelope = (\<lambda>p. p), rtree_query = (\<lambda>b. [0, 1]), deref = (\<lambda>k. k + 100),
      intersects = (\<lambda>w a. a \<noteq> 100 + w), within = (\<lambda>a w. False)\<rparr> [0, 1 :: nat] =
   Some (Returned [(1, [0]), (0, [1])] :: ((nat \<times> nat list) list, unit) outcome) \<and>
   set [(0 :: nat, [1 :: nat]), (1, [0])] = set [(1, [0]), (0, [1])]"
proof -
  let ?g = "\<lparr>envelope = (\<lambda>p :: nat. p), rtree_query = (\<lambda>b. [0, 1 :: nat]), deref = (\<lambda>k. k + 100),
      intersects = (\<lambda>w a. a \<noteq> 100 + w), within = (\<lambda>a w. False)\<rparr>"
  have r1: "select_overlap_threads 1 8 (replicate 20 0) ?g [0, 1 :: nat] =
    Some (Returned [(0, [1]), (1, [0])] :: ((nat \<times> nat list) list, unit) outcome)"
    by code_simp
  have un: "\<forall>i<length [0, 1 :: nat]. \<forall>j<length [0, 1 :: nat]. \<forall>a.
             a \<in> set (rtree_query ?g (envelope ?g ([0, 1] ! i))) \<and>
             intersects ?g ([0, 1] ! i) (deref ?g a) \<and> \<not> within ?g (deref ?g a) ([0, 1] ! i) \<and>
             a \<in> set (rtree_query ?g (envelope ?g ([0, 1] ! j))) \<and>
             intersects ?g ([0, 1] ! j) (deref ?g a) \<and> \<not> within ?g (deref ?g a) ([0, 1] ! j) \<longrightarrow> i = j"
    by (auto simp: less_Suc_eq numeral_2_eq_2)
  from select_overlap_thread_count [OF un r1 example_run] r1 example_run show ?thesis by simp
qed

end
